theory Spec2Isabelle
  imports Main
begin

section \<open>The JSONP client backend of the HTTP client (jsonp.mjs)\<close>

text \<open>
  The module keeps two variables for the whole page, \<open>nextRequestId\<close> and
  \<open>foreignDocument\<close>, and the class \<open>JsonpClientBackend\<close> turns one request into a
  stream of events by adding a script element to the page. The model below follows the
  module function by function. Every closure that \<open>handle\<close> creates for one subscription
  (\<open>cleanup\<close>, \<open>onLoad\<close>, \<open>onError\<close>, the response callback, the cancellation handler)
  becomes a function of the world that takes the subscription's script node as argument.
\<close>

subsection \<open>Values, requests and events\<close>

text \<open>JavaScript values as far as the module looks at them: what the loaded script hands
  to the callback, and what the error event carries.\<close>

datatype jsval =
    JUndefined
  | JNull
  | JBool bool
  | JNum int
  | JStr string
  | JArr "jsval list"
  | JObj "(string \<times> jsval) list"

text \<open>The fields of \<open>HttpRequest\<close> that \<open>handle\<close> reads; \<open>headerKeys\<close> is
  \<open>req.headers.keys()\<close>.\<close>

record request =
  "method" :: string
  responseType :: string
  headerKeys :: "string list"
  urlWithParams :: string

text \<open>The \<open>error\<close> field of an error response is either \<open>new Error(message)\<close> or the
  value the error event delivered.\<close>

datatype cause = ErrorObject string | EventCause jsval

text \<open>The objects given to the observer. An \<open>HttpResponse\<close> is the response the
  observer receives, with its body, status, statusText and url (\<open>None\<close> is a url of
  \<open>null\<close>). An \<open>HttpErrorResponse\<close> carries the fields of the initialiser the
  module passes to the constructor, in the order error, status, statusText, url.\<close>

datatype http_event = Sent | HttpResponse jsval nat string "string option"

datatype http_error = HttpErrorResponse cause nat string string

datatype notification = Next http_event | Error http_error | Complete

definition JSONP_ERR_NO_CALLBACK :: string where
  "JSONP_ERR_NO_CALLBACK = ''JSONP injected script did not invoke callback.''"

definition JSONP_ERR_WRONG_METHOD :: string where
  "JSONP_ERR_WRONG_METHOD = ''JSONP requests must use JSONP request method.''"

definition JSONP_ERR_WRONG_RESPONSE_TYPE :: string where
  "JSONP_ERR_WRONG_RESPONSE_TYPE = ''JSONP requests must use Json response type.''"

definition JSONP_ERR_HEADERS_NOT_SUPPORTED :: string where
  "JSONP_ERR_HEADERS_NOT_SUPPORTED = ''JSONP requests do not support headers.''"

text \<open>
  Modelled from the spec: the constructor of \<open>HttpResponse\<close> (the class is in
  \<open>./response\<close>, which is not among the sources). A success carries the body received,
  which is the "no content" value when the callback was called with no argument; the
  source says of the body it passes that it "either contains the response body or null if
  none was returned". So \<open>new HttpResponse({body, status, statusText, url})\<close> is the
  response with the body given, or \<open>null\<close> where the body given is \<open>undefined\<close>;
  an empty status text stands for "OK" and an empty url for \<open>null\<close>.
\<close>

definition newHttpResponse :: "jsval \<Rightarrow> nat \<Rightarrow> string \<Rightarrow> string \<Rightarrow> http_event" where
  "newHttpResponse b s t u =
     HttpResponse (if b = JUndefined then JNull else b) s (if t = [] then ''OK'' else t)
       (if u = [] then None else Some u)"

subsection \<open>The state of the page\<close>

text \<open>
  One subscription: the variables \<open>callback\<close>, \<open>url\<close>, \<open>body\<close> and \<open>finished\<close> that the
  closures share, the document that owns the script node (\<open>None\<close> is the page's own
  document, \<open>Some d\<close> a document made by \<open>createHTMLDocument\<close>), and the subscriber.
\<close>

record exchange =
  callback :: string
  url :: string
  body :: jsval
  finished :: bool
  ownerDocument :: "nat option"
  stopped :: bool
  emitted :: "notification list"

text \<open>
  The world: the two module variables, the callback map (\<open>window\<close>), the children of
  \<open>document.body\<close>, the subscriptions by script node, the number of nodes and of
  documents created so far, and the queue of microtasks scheduled on \<open>resolvedPromise\<close>
  (each is the deferred part of \<open>onLoad\<close> of the node named). A callback map entry
  names the node whose response callback is stored under that key.
\<close>

record world =
  nextRequestId :: nat
  foreignDocument :: "nat option"
  callbackMap :: "string \<Rightarrow> nat option"
  bodyChildren :: "nat list"
  exchanges :: "nat \<Rightarrow> exchange option"
  nodesCreated :: nat
  documentsCreated :: nat
  microtasks :: "nat list"

definition initial :: world where
  "initial = \<lparr> nextRequestId = 0, foreignDocument = None, callbackMap = (\<lambda>_. None),
     bodyChildren = [], exchanges = (\<lambda>_. None), nodesCreated = 0, documentsCreated = 0,
     microtasks = [] \<rparr>"

subsection \<open>Callback names\<close>

text \<open>
  \<open>nextRequestId\<close> is a JavaScript number, a double. Counting up from 0 it holds the
  integers exactly up to \<open>2 ^ 53\<close>; there \<open>nextRequestId++\<close> stores
  \<open>2 ^ 53 + 1\<close> rounded to the nearest double, which is \<open>2 ^ 53\<close> again.
\<close>

definition postIncrement :: "nat \<Rightarrow> nat" where
  "postIncrement n = (if n < 2 ^ 53 then n + 1 else n)"

text \<open>The template literal writes the number in decimal (integers below \<open>10 ^ 21\<close>
  have no exponent).\<close>

definition digit :: "nat \<Rightarrow> char" where
  "digit d = ''0123456789'' ! d"

fun decimal :: "nat \<Rightarrow> string" where
  "decimal n = (if n < 10 then [digit n] else decimal (n div 10) @ [digit (n mod 10)])"

declare decimal.simps [simp del]

definition nextCallback :: "world \<Rightarrow> string \<times> world" where
  "nextCallback w =
     (''ng_jsonp_callback_'' @ decimal (nextRequestId w),
      w\<lparr> nextRequestId := postIncrement (nextRequestId w) \<rparr>)"

subsection \<open>The URL rewrite\<close>

text \<open>
  \<open>req.urlWithParams.replace(/=JSONP_CALLBACK(&|$)/, `=${callback}$1`)\<close>: the regular
  expression has no \<open>g\<close> flag, so the leftmost match alone is replaced; \<open>$\<close> without
  the \<open>m\<close> flag is the end of the string. \<open>matchHere s\<close> is the match at the start of
  \<open>s\<close>: the text of group 1 and what follows the match.
\<close>

definition placeholder :: string where
  "placeholder = ''=JSONP_CALLBACK''"

definition matchHere :: "string \<Rightarrow> (string \<times> string) option" where
  "matchHere s =
     (if take (length placeholder) s = placeholder then
        (case drop (length placeholder) s of
           [] \<Rightarrow> Some ([], [])
         | c # rest \<Rightarrow> if c = CHR ''&'' then Some ([c], rest) else None)
      else None)"

fun replaceCallback :: "string \<Rightarrow> string \<Rightarrow> string" where
  "replaceCallback cb [] = []"
| "replaceCallback cb (c # cs) =
     (case matchHere (c # cs) of
        Some (group1, rest) \<Rightarrow> ''='' @ cb @ group1 @ rest
      | None \<Rightarrow> c # replaceCallback cb cs)"

subsection \<open>handle\<close>

text \<open>
  \<open>handle\<close> either throws an \<open>Error\<close> with a message (\<open>Inl\<close>) or returns the
  observable (\<open>Inr\<close>), which is the closure over the request that runs at each
  subscription. It takes the world and gives it back, so that what it does to the page
  is part of its result.
\<close>

datatype observable = Observable request

definition handle :: "request \<Rightarrow> world \<Rightarrow> (string + observable) \<times> world" where
  "handle req w =
     (if method req \<noteq> ''JSONP'' then (Inl JSONP_ERR_WRONG_METHOD, w)
      else if responseType req \<noteq> ''json'' then (Inl JSONP_ERR_WRONG_RESPONSE_TYPE, w)
      else if length (headerKeys req) > 0 then (Inl JSONP_ERR_HEADERS_NOT_SUPPORTED, w)
      else (Inr (Observable req), w))"

subsection \<open>The closures of one subscription\<close>

definition modify :: "nat \<Rightarrow> (exchange \<Rightarrow> exchange) \<Rightarrow> world \<Rightarrow> world" where
  "modify node f w = w\<lparr> exchanges := (exchanges w)(node := map_option f (exchanges w node)) \<rparr>"

text \<open>The response callback \<open>(data) => {...}\<close> stored in the callback map.\<close>

definition responseCallback :: "nat \<Rightarrow> jsval \<Rightarrow> world \<Rightarrow> world" where
  "responseCallback node data w =
     (case exchanges w node of
        None \<Rightarrow> w
      | Some x \<Rightarrow>
          modify node (\<lambda>x. x\<lparr> body := data, finished := True \<rparr>)
            (w\<lparr> callbackMap := (callbackMap w)(callback x := None) \<rparr>))"

text \<open>\<open>parent.removeChild(node)\<close>: the children of the parent without the node (a node
  is a child of its parent once).\<close>

definition removeChild :: "nat \<Rightarrow> nat list \<Rightarrow> nat list" where
  "removeChild node children = filter (\<lambda>c. c \<noteq> node) children"

definition cleanup :: "nat \<Rightarrow> world \<Rightarrow> world" where
  "cleanup node w =
     (case exchanges w node of
        None \<Rightarrow> w
      | Some x \<Rightarrow>
          w\<lparr> bodyChildren :=
               (if node \<in> set (bodyChildren w) then removeChild node (bodyChildren w)
                else bodyChildren w),
             callbackMap := (callbackMap w)(callback x := None) \<rparr>)"

text \<open>\<open>adoptNode\<close> of the DOM takes the node out of its parent and makes the given
  document its owner.\<close>

definition adoptNode :: "nat option \<Rightarrow> nat \<Rightarrow> world \<Rightarrow> world" where
  "adoptNode doc node w =
     modify node (\<lambda>x. x\<lparr> ownerDocument := doc \<rparr>)
       (w\<lparr> bodyChildren := removeChild node (bodyChildren w) \<rparr>)"

definition createHTMLDocument :: "world \<Rightarrow> nat \<times> world" where
  "createHTMLDocument w = (documentsCreated w, w\<lparr> documentsCreated := documentsCreated w + 1 \<rparr>)"

definition removeListeners :: "nat \<Rightarrow> world \<Rightarrow> world" where
  "removeListeners script w =
     (let w1 = (case foreignDocument w of
                  None \<Rightarrow> (let (d, w') = createHTMLDocument w in w'\<lparr> foreignDocument := Some d \<rparr>)
                | Some _ \<Rightarrow> w)
      in adoptNode (foreignDocument w1) script w1)"

text \<open>The cancellation handler that the subscription function returns.\<close>

definition teardown :: "nat \<Rightarrow> world \<Rightarrow> world" where
  "teardown node w =
     (case exchanges w node of
        None \<Rightarrow> w
      | Some x \<Rightarrow> cleanup node (if \<not> finished x then removeListeners node w else w))"

subsection \<open>The subscriber\<close>

text \<open>
  Modelled from the spec: the event stream's subscriber (\<open>Observable\<close> and its observer
  come from the package rxjs, which is not among the sources). One subscription carries
  at most three events, "sent" and then one terminal event; after a terminal event or a
  cancellation no further event occurs; and the cancellation handler runs on every exit
  path, once. So \<open>next\<close>, \<open>error\<close> and \<open>complete\<close> do nothing on a stopped
  subscriber, \<open>error\<close> and \<open>complete\<close> deliver, stop it and run the handler, and
  \<open>unsubscribe\<close> stops it and runs the handler.
\<close>

definition deliver :: "nat \<Rightarrow> notification \<Rightarrow> world \<Rightarrow> world" where
  "deliver node n w = modify node (\<lambda>x. x\<lparr> emitted := emitted x @ [n] \<rparr>) w"

definition stop :: "nat \<Rightarrow> world \<Rightarrow> world" where
  "stop node w = modify node (\<lambda>x. x\<lparr> stopped := True \<rparr>) w"

definition isStopped :: "nat \<Rightarrow> world \<Rightarrow> bool" where
  "isStopped node w = (case exchanges w node of None \<Rightarrow> True | Some x \<Rightarrow> stopped x)"

definition observer_next :: "nat \<Rightarrow> http_event \<Rightarrow> world \<Rightarrow> world" where
  "observer_next node ev w = (if isStopped node w then w else deliver node (Next ev) w)"

definition observer_error :: "nat \<Rightarrow> http_error \<Rightarrow> world \<Rightarrow> world" where
  "observer_error node err w =
     (if isStopped node w then w else teardown node (stop node (deliver node (Error err) w)))"

definition observer_complete :: "nat \<Rightarrow> world \<Rightarrow> world" where
  "observer_complete node w =
     (if isStopped node w then w else teardown node (stop node (deliver node Complete w)))"

definition unsubscribe :: "nat \<Rightarrow> world \<Rightarrow> world" where
  "unsubscribe node w = (if isStopped node w then w else teardown node (stop node w))"

subsection \<open>The event handlers and the subscription function\<close>

text \<open>\<open>onLoad\<close> only schedules its body on \<open>resolvedPromise\<close>; \<open>onLoadDeferred\<close> is
  that body, run when the microtask is taken from the queue.\<close>

definition onLoad :: "nat \<Rightarrow> world \<Rightarrow> world" where
  "onLoad node w = w\<lparr> microtasks := microtasks w @ [node] \<rparr>"

definition onLoadDeferred :: "nat \<Rightarrow> world \<Rightarrow> world" where
  "onLoadDeferred node w =
     (let w1 = cleanup node w in
      case exchanges w1 node of
        None \<Rightarrow> w1
      | Some x \<Rightarrow>
          if \<not> finished x then
            observer_error node
              (HttpErrorResponse (ErrorObject JSONP_ERR_NO_CALLBACK) 0 ''JSONP Error'' (url x)) w1
          else
            observer_complete node
              (observer_next node (newHttpResponse (body x) 200 ''OK'' (url x)) w1))"

definition onError :: "nat \<Rightarrow> jsval \<Rightarrow> world \<Rightarrow> world" where
  "onError node err w =
     (let w1 = cleanup node w in
      case exchanges w1 node of
        None \<Rightarrow> w1
      | Some x \<Rightarrow>
          observer_error node (HttpErrorResponse (EventCause err) 0 ''JSONP Error'' (url x)) w1)"

text \<open>The function given to \<open>new Observable\<close>, run at each subscription. It returns the
  script node it created, which names the subscription from then on.\<close>

definition subscribe :: "observable \<Rightarrow> world \<Rightarrow> nat \<times> world" where
  "subscribe obs w =
     (case obs of Observable req \<Rightarrow>
        (let (cb, w1) = nextCallback w;
             u = replaceCallback cb (urlWithParams req);
             node = nodesCreated w1;
             w2 = w1\<lparr> nodesCreated := nodesCreated w1 + 1,
                     exchanges := (exchanges w1)(node \<mapsto>
                       \<lparr> callback = cb, url = u, body = JNull, finished = False,
                         ownerDocument = None, stopped = False, emitted = [] \<rparr>) \<rparr>;
             w3 = w2\<lparr> callbackMap := (callbackMap w2)(cb \<mapsto> node) \<rparr>;
             w4 = w3\<lparr> bodyChildren := bodyChildren w3 @ [node] \<rparr>
         in (node, observer_next node Sent w4)))"

subsection \<open>What happens on the page\<close>

text \<open>
  The things that can happen after the module is loaded: a caller passes a request to
  \<open>handle\<close> and subscribes to the result; some script calls a function of the callback
  map by name, with a list of arguments; the browser fires the load or the error event
  of a script node; the browser runs the next microtask; a consumer unsubscribes.
  A call to a name that is not in the callback map fails in the calling script and
  leaves this module's state alone. A parameter with no argument is \<open>undefined\<close>.
  Events are fired at nodes that exist. The model allows these steps in any order and any
  number of times, which covers every order a browser produces; a browser empties the
  microtask queue before it starts the next task.
\<close>

datatype action =
    Request request
  | Call string "jsval list"
  | LoadEvent nat
  | ErrorEvent nat jsval
  | Microtask
  | Unsubscribe nat

definition firstArgument :: "jsval list \<Rightarrow> jsval" where
  "firstArgument args = (case args of [] \<Rightarrow> JUndefined | a # _ \<Rightarrow> a)"

fun step :: "action \<Rightarrow> world \<Rightarrow> world" where
  "step (Request req) w =
     (case handle req w of
        (Inl message, w') \<Rightarrow> w'
      | (Inr obs, w') \<Rightarrow> snd (subscribe obs w'))"
| "step (Call name args) w =
     (case callbackMap w name of
        None \<Rightarrow> w
      | Some node \<Rightarrow> responseCallback node (firstArgument args) w)"
| "step (LoadEvent node) w = (case exchanges w node of None \<Rightarrow> w | Some _ \<Rightarrow> onLoad node w)"
| "step (ErrorEvent node err) w = onError node err w"
| "step Microtask w =
     (case microtasks w of
        [] \<Rightarrow> w
      | node # queue \<Rightarrow> onLoadDeferred node (w\<lparr> microtasks := queue \<rparr>))"
| "step (Unsubscribe node) w = unsubscribe node w"

fun run :: "action list \<Rightarrow> world \<Rightarrow> world" where
  "run [] w = w"
| "run (a # as) w = run as (step a w)"

definition emittedBy :: "nat \<Rightarrow> world \<Rightarrow> notification list" where
  "emittedBy node w = (case exchanges w node of None \<Rightarrow> [] | Some x \<Rightarrow> emitted x)"

subsection \<open>Notions used to state the properties\<close>

text \<open>The placeholder occurs at index \<open>i\<close> of \<open>s\<close>: the literal is there, followed by
  an ampersand or by the end of the string.\<close>

definition occursAt :: "string \<Rightarrow> nat \<Rightarrow> bool" where
  "occursAt s i \<longleftrightarrow>
     take (length placeholder) (drop i s) = placeholder \<and>
     (drop (i + length placeholder) s = [] \<or> hd (drop (i + length placeholder) s) = CHR ''&'')"

text \<open>What one step can do to a subscription that exists: the names stay, a stopped
  subscriber stays stopped with the same events, and a running one either emits nothing
  or stops with one error or with a response and the completion.\<close>

definition localStep :: "exchange \<Rightarrow> exchange \<Rightarrow> bool" where
  "localStep x x' \<longleftrightarrow>
     callback x' = callback x \<and> url x' = url x \<and>
     (stopped x \<longrightarrow> stopped x' \<and> emitted x' = emitted x) \<and>
     (emitted x' = emitted x \<or>
      stopped x' \<and>
        ((\<exists>c. emitted x' = emitted x @ [Error (HttpErrorResponse c 0 ''JSONP Error'' (url x))]) \<or>
         (\<exists>b. emitted x' = emitted x @ [Next (newHttpResponse b 200 ''OK'' (url x)), Complete])))"

text \<open>
  The world after a running subscription has ended, with \<open>es\<close> the events of the
  ending: the callback name is free, the node is off the page and the subscriber is
  stopped; where no response had come, a foreign document exists and owns the node.
\<close>

definition closing :: "nat \<Rightarrow> exchange \<Rightarrow> notification list \<Rightarrow> world \<Rightarrow> world" where
  "closing n x es w =
     (if finished x then
        w\<lparr> callbackMap := (callbackMap w)(callback x := None),
           bodyChildren := removeChild n (bodyChildren w),
           exchanges := (exchanges w)(n \<mapsto> x\<lparr> stopped := True, emitted := emitted x @ es \<rparr>) \<rparr>
      else
        w\<lparr> foreignDocument :=
             Some (case foreignDocument w of None \<Rightarrow> documentsCreated w | Some d \<Rightarrow> d),
           callbackMap := (callbackMap w)(callback x := None),
           bodyChildren := removeChild n (bodyChildren w),
           exchanges := (exchanges w)(n \<mapsto>
             x\<lparr> ownerDocument :=
                  Some (case foreignDocument w of None \<Rightarrow> documentsCreated w | Some d \<Rightarrow> d),
                stopped := True, emitted := emitted x @ es \<rparr>),
           documentsCreated :=
             (case foreignDocument w of None \<Rightarrow> documentsCreated w + 1
              | Some d \<Rightarrow> documentsCreated w) \<rparr>)"

text \<open>Every script node in use was made by \<open>createElement\<close> before.\<close>

definition bounded :: "world \<Rightarrow> bool" where
  "bounded w \<longleftrightarrow> (\<forall>n. exchanges w n \<noteq> None \<longrightarrow> n < nodesCreated w)"

text \<open>
  The events of one subscription are well formed: "sent" alone, or, on a stopped
  subscriber, "sent" followed by one response and the completion, or "sent" followed by
  one error.
\<close>

definition wellFormed :: "notification list \<Rightarrow> bool \<Rightarrow> bool" where
  "wellFormed es st \<longleftrightarrow>
     es = [Next Sent] \<or>
     st \<and> ((\<exists>b s t u. es = [Next Sent, Next (HttpResponse b s t u), Complete]) \<or>
           (\<exists>e. es = [Next Sent, Error e]))"

definition streams_ok :: "world \<Rightarrow> bool" where
  "streams_ok w \<longleftrightarrow>
     bounded w \<and> (\<forall>n x. exchanges w n = Some x \<longrightarrow> wellFormed (emitted x) (stopped x))"

text \<open>Every error among the events has status 0 and the status text "JSONP Error".\<close>

fun jsonpError :: "notification \<Rightarrow> bool" where
  "jsonpError (Error (HttpErrorResponse c s t u)) \<longleftrightarrow> s = 0 \<and> t = ''JSONP Error''"
| "jsonpError _ \<longleftrightarrow> True"

definition jsonpErrors :: "notification list \<Rightarrow> bool" where
  "jsonpErrors es \<longleftrightarrow> list_all jsonpError es"

definition errors_ok :: "world \<Rightarrow> bool" where
  "errors_ok w \<longleftrightarrow> bounded w \<and> (\<forall>n x. exchanges w n = Some x \<longrightarrow> jsonpErrors (emitted x))"

text \<open>The callback name made from a request id.\<close>

definition callbackName :: "nat \<Rightarrow> string" where
  "callbackName k = ''ng_jsonp_callback_'' @ decimal k"

text \<open>
  While the request id is below \<open>2 ^ 53\<close>, every subscription's callback name is made
  from an id already used up, and two subscriptions have different names.
\<close>

definition names_ok :: "world \<Rightarrow> bool" where
  "names_ok w \<longleftrightarrow>
     bounded w \<and>
     (nextRequestId w < 2 ^ 53 \<longrightarrow>
        (\<forall>n x. exchanges w n = Some x \<longrightarrow> (\<exists>k<nextRequestId w. callback x = callbackName k)) \<and>
        (\<forall>n m x y. n \<noteq> m \<and> exchanges w n = Some x \<and> exchanges w m = Some y \<longrightarrow>
           callback x \<noteq> callback y))"

section \<open>Properties\<close>

subsection \<open>Decimal numerals\<close>

lemma digit_inj: "d < 10 \<Longrightarrow> e < 10 \<Longrightarrow> digit d = digit e \<Longrightarrow> d = e"
proof -
  have dist: "distinct ''0123456789''" by simp
  assume "d < 10" "e < 10" "digit d = digit e"
  then show ?thesis
    using dist unfolding digit_def
    by (metis (no_types, lifting) distinct_conv_nth length_Cons list.size(3) numeral_eq_Suc
        One_nat_def pred_numeral_simps Num.BitM.simps)
qed

lemma decimal_length:
  "length (decimal n) = (if n < 10 then 1 else Suc (length (decimal (n div 10))))"
  by (subst decimal.simps) simp

lemma decimal_nonempty: "decimal n \<noteq> []"
  by (subst decimal.simps) simp

lemma decimal_inj: "decimal n = decimal m \<Longrightarrow> n = m"
proof (induction n arbitrary: m rule: decimal.induct)
  case (1 n)
  show ?case
  proof (cases "n < 10")
    case True
    then have ln: "length (decimal n) = 1" by (simp add: decimal_length)
    have m: "m < 10"
    proof (rule ccontr)
      assume "\<not> m < 10"
      then have "length (decimal m) = Suc (length (decimal (m div 10)))"
        by (simp add: decimal_length)
      with ln "1.prems" decimal_nonempty [of "m div 10"] show False by simp
    qed
    from True m "1.prems" have "digit n = digit m" by (simp add: decimal.simps)
    with True m show ?thesis by (rule digit_inj)
  next
    case False
    have m: "\<not> m < 10"
    proof
      assume "m < 10"
      then have "length (decimal m) = 1" by (simp add: decimal_length)
      moreover from False have "length (decimal n) = Suc (length (decimal (n div 10)))"
        by (simp add: decimal_length)
      ultimately show False using "1.prems" decimal_nonempty [of "n div 10"] by simp
    qed
    from False m "1.prems"
    have "decimal (n div 10) @ [digit (n mod 10)] = decimal (m div 10) @ [digit (m mod 10)]"
      by (simp add: decimal.simps [of n] decimal.simps [of m])
    then have "decimal (n div 10) = decimal (m div 10)"
      and d: "digit (n mod 10) = digit (m mod 10)" by simp_all
    with "1.IH" False have "n div 10 = m div 10" by simp
    moreover from d have "n mod 10 = m mod 10" by (intro digit_inj) simp_all
    ultimately show ?thesis by (metis div_mult_mod_eq)
  qed
qed

text \<open>A callback name holds no dollar sign, so \<open>$1\<close> is the only pattern in the
  replacement string of the URL rewrite.\<close>

lemma digit_plain: "d < 10 \<Longrightarrow> digit d \<noteq> CHR ''$''"
proof -
  assume "d < 10"
  then have "digit d \<in> set ''0123456789''" unfolding digit_def by (intro nth_mem) simp
  then show ?thesis by auto
qed

lemma decimal_plain: "CHR ''$'' \<notin> set (decimal n)"
proof (induction n rule: decimal.induct)
  case (1 n)
  show ?case
  proof (cases "n < 10")
    case True
    then show ?thesis using digit_plain [of n] by (simp add: decimal.simps)
  next
    case False
    with "1.IH" digit_plain [of "n mod 10"] show ?thesis
      by (simp add: decimal.simps [of n])
  qed
qed

lemma nextCallback_plain: "CHR ''$'' \<notin> set (fst (nextCallback w))"
  by (simp add: nextCallback_def decimal_plain)

subsection \<open>The leftmost match\<close>

lemma matchHere_split: "matchHere s = Some (g, r) \<Longrightarrow> g @ r = drop (length placeholder) s"
  by (auto simp: matchHere_def split: if_splits list.splits)

lemma matchHere_occurs: "matchHere s = None \<longleftrightarrow> \<not> occursAt s 0"
  by (auto simp: matchHere_def occursAt_def split: if_splits list.splits)

lemma occursAt_Cons: "occursAt (c # cs) (Suc i) = occursAt cs i"
  by (simp add: occursAt_def)

lemma occursAt_char: "occursAt s i \<Longrightarrow> i < length s \<and> s ! i = CHR ''=''"
proof -
  assume o: "occursAt s i"
  then have t: "take (length placeholder) (drop i s) = placeholder" by (simp add: occursAt_def)
  have "i < length s"
  proof (rule ccontr)
    assume "\<not> i < length s"
    with t show False by (simp add: placeholder_def)
  qed
  moreover from t have "hd (drop i s) = CHR ''=''"
    by (metis hd_take list.sel(1) placeholder_def length_greater_0_conv list.distinct(1))
  ultimately show ?thesis by (simp add: hd_drop_conv_nth)
qed

lemma occursAt_short: "length s < length placeholder \<Longrightarrow> \<not> occursAt s i"
proof
  assume l: "length s < length placeholder" and "occursAt s i"
  then have "take (length placeholder) (drop i s) = placeholder" by (simp add: occursAt_def)
  then have "length (take (length placeholder) (drop i s)) = length placeholder" by simp
  with l show False by simp
qed

lemma no_occurrence_in_prefix:
  "CHR ''='' \<notin> set pre \<Longrightarrow> \<forall>j<length pre. \<not> occursAt (pre @ rest) j"
proof (intro allI impI notI)
  fix j assume "CHR ''='' \<notin> set pre" "j < length pre" "occursAt (pre @ rest) j"
  then show False using occursAt_char [of "pre @ rest" j] nth_mem [of j pre]
    by (auto simp: nth_append)
qed

lemma replaceCallback_first:
  "occursAt s i \<Longrightarrow> \<forall>j<i. \<not> occursAt s j \<Longrightarrow>
   replaceCallback cb s = take i s @ ''='' @ cb @ drop (i + length placeholder) s"
proof (induction s arbitrary: i)
  case Nil
  then show ?case by (simp add: occursAt_def placeholder_def)
next
  case (Cons c cs)
  show ?case
  proof (cases i)
    case 0
    with Cons.prems(1) obtain g r where m: "matchHere (c # cs) = Some (g, r)"
      using matchHere_occurs [of "c # cs"] by (cases "matchHere (c # cs)") auto
    from matchHere_split [OF m] 0 m show ?thesis by simp
  next
    case (Suc k)
    with Cons.prems(2) have "\<not> occursAt (c # cs) 0" by simp
    then have m: "matchHere (c # cs) = None" using matchHere_occurs [of "c # cs"] by simp
    from Cons.prems(1) Suc have o1: "occursAt cs k" by (simp add: occursAt_Cons)
    have o2: "\<forall>j<k. \<not> occursAt cs j"
    proof (intro allI impI)
      fix j assume "j < k"
      with Cons.prems(2) Suc have "\<not> occursAt (c # cs) (Suc j)" by simp
      then show "\<not> occursAt cs j" by (simp add: occursAt_Cons)
    qed
    from Cons.IH [OF o1 o2] m Suc show ?thesis by simp
  qed
qed

lemma replaceCallback_absent: "\<forall>i. \<not> occursAt s i \<Longrightarrow> replaceCallback cb s = s"
proof (induction s)
  case Nil
  then show ?case by simp
next
  case (Cons c cs)
  from Cons.prems have "\<not> occursAt (c # cs) 0" by simp
  then have m: "matchHere (c # cs) = None" using matchHere_occurs [of "c # cs"] by simp
  have "\<forall>i. \<not> occursAt cs i" using Cons.prems occursAt_Cons [of c cs] by blast
  from Cons.IH [OF this] m show ?case by simp
qed

lemma replaceCallback_decomposed:
  assumes "u = pre @ placeholder @ suf" and "suf = [] \<or> hd suf = CHR ''&''"
    and "\<forall>j<length pre. \<not> occursAt u j"
  shows "replaceCallback cb u = pre @ ''='' @ cb @ suf"
proof -
  from assms(1,2) have "occursAt u (length pre)" by (auto simp: occursAt_def)
  from replaceCallback_first [OF this assms(3)] assms(1) show ?thesis by simp
qed

subsection \<open>What a subscription sets up\<close>

lemmas closure_defs = modify_def responseCallback_def removeChild_def cleanup_def adoptNode_def
  createHTMLDocument_def removeListeners_def teardown_def deliver_def stop_def isStopped_def
  observer_next_def observer_error_def observer_complete_def unsubscribe_def onLoad_def
  onLoadDeferred_def onError_def

lemma subscribe_node: "fst (subscribe obs w) = nodesCreated w"
  by (cases obs) (simp add: subscribe_def nextCallback_def Let_def)

lemma subscribe_exchanges:
  "exchanges (snd (subscribe (Observable req) w)) =
     (exchanges w)(nodesCreated w \<mapsto>
       \<lparr> callback = fst (nextCallback w),
         url = replaceCallback (fst (nextCallback w)) (urlWithParams req),
         body = JNull, finished = False, ownerDocument = None, stopped = False,
         emitted = [Next Sent] \<rparr>)"
  by (simp add: subscribe_def nextCallback_def Let_def closure_defs)

lemma step_Request_valid:
  "method req = ''JSONP'' \<Longrightarrow> responseType req = ''json'' \<Longrightarrow> headerKeys req = [] \<Longrightarrow>
   step (Request req) w = snd (subscribe (Observable req) w)"
  by (simp add: handle_def)

lemma step_Request_cases:
  "step (Request req) w = w \<or> step (Request req) w = snd (subscribe (Observable req) w)"
  by (simp add: handle_def)

lemma subscribe_nodesCreated: "nodesCreated (snd (subscribe obs w)) = Suc (nodesCreated w)"
  by (cases obs) (simp add: subscribe_def nextCallback_def Let_def closure_defs)

lemma subscribe_nextRequestId:
  "nextRequestId (snd (subscribe obs w)) = postIncrement (nextRequestId w)"
  by (cases obs) (simp add: subscribe_def nextCallback_def Let_def closure_defs)

lemma subscribe_foreignDocument:
  "foreignDocument (snd (subscribe obs w)) = foreignDocument w \<and>
   documentsCreated (snd (subscribe obs w)) = documentsCreated w"
  by (cases obs) (simp add: subscribe_def nextCallback_def Let_def closure_defs)

text \<open>The equations that evaluate a run on a given world.\<close>

lemmas eval_defs = initial_def handle_def subscribe_def nextCallback_def postIncrement_def
  newHttpResponse_def
  decimal.simps digit_def matchHere_def placeholder_def firstArgument_def closure_defs Let_def

subsection \<open>The three ways a subscription ends\<close>

lemma removeChild_idem [simp]: "removeChild n (removeChild n cs) = removeChild n cs"
  by (simp add: removeChild_def)

lemma removeChild_absent: "n \<notin> set cs \<Longrightarrow> removeChild n cs = cs"
  by (induction cs) (simp_all add: removeChild_def)

lemma removeChild_guard [simp]:
  "(if n \<in> set cs then removeChild n cs else cs) = removeChild n cs"
  by (simp add: removeChild_absent)

lemma removeChild_notin [simp]: "n \<notin> set (removeChild n cs)"
  by (simp add: removeChild_def)

lemma unsubscribe_closing:
  "exchanges w n = Some x \<Longrightarrow> \<not> stopped x \<Longrightarrow> unsubscribe n w = closing n x [] w"
  apply (cases "foreignDocument w")
     apply (simp_all add: closing_def unsubscribe_def isStopped_def stop_def teardown_def modify_def
        cleanup_def removeListeners_def createHTMLDocument_def adoptNode_def)
     apply (auto simp: removeChild_absent intro!: world.equality exchange.equality)
  done

lemma onError_closing:
  "exchanges w n = Some x \<Longrightarrow> \<not> stopped x \<Longrightarrow>
   onError n e w =
     closing n x [Error (HttpErrorResponse (EventCause e) 0 ''JSONP Error'' (url x))] w"
  apply (cases "foreignDocument w")
     apply (simp_all add: closing_def onError_def observer_error_def deliver_def isStopped_def stop_def
        teardown_def modify_def cleanup_def removeListeners_def createHTMLDocument_def
        adoptNode_def)
     apply (auto simp: removeChild_absent intro!: world.equality exchange.equality)
  done

lemma onLoadDeferred_closing:
  "exchanges w n = Some x \<Longrightarrow> \<not> stopped x \<Longrightarrow>
   onLoadDeferred n w =
     closing n x
       (if finished x then [Next (newHttpResponse (body x) 200 ''OK'' (url x)), Complete]
        else [Error (HttpErrorResponse (ErrorObject JSONP_ERR_NO_CALLBACK) 0 ''JSONP Error''
                (url x))]) w"
  apply (cases "foreignDocument w")
     apply (simp_all add: closing_def onLoadDeferred_def observer_error_def observer_next_def
        observer_complete_def deliver_def isStopped_def stop_def
        teardown_def modify_def cleanup_def removeListeners_def createHTMLDocument_def
        adoptNode_def)
     apply (auto simp: removeChild_absent intro!: world.equality exchange.equality)
  done

lemma stopped_paths:
  "exchanges w n = Some x \<Longrightarrow> stopped x \<Longrightarrow>
   unsubscribe n w = w \<and> onError n e w = cleanup n w \<and> onLoadDeferred n w = cleanup n w"
  by (simp add: unsubscribe_def isStopped_def onError_def onLoadDeferred_def cleanup_def
      observer_error_def observer_next_def observer_complete_def Let_def)

lemma responseCallback_effect:
  "exchanges w n = Some x \<Longrightarrow>
   responseCallback n d w =
     w\<lparr> callbackMap := (callbackMap w)(callback x := None),
        exchanges := (exchanges w)(n \<mapsto> x\<lparr> body := d, finished := True \<rparr>) \<rparr>"
  by (simp add: responseCallback_def modify_def)

lemma cleanup_effect:
  "exchanges w n = Some x \<Longrightarrow>
   cleanup n w =
     w\<lparr> callbackMap := (callbackMap w)(callback x := None),
        bodyChildren := removeChild n (bodyChildren w) \<rparr>"
  by (simp add: cleanup_def)

subsection \<open>The cases of one step\<close>

lemma missing_node:
  "exchanges w n = None \<Longrightarrow>
   onError n e w = w \<and> onLoadDeferred n w = w \<and> unsubscribe n w = w"
  by (simp add: onError_def onLoadDeferred_def unsubscribe_def cleanup_def isStopped_def)

lemma step_cases [case_names same subscribed answered queued cleaned ended]:
  obtains "step a w = w"
  | req where "step a w = snd (subscribe (Observable req) w)"
  | n x d where "exchanges w n = Some x"
      and "step a w =
        w\<lparr> callbackMap := (callbackMap w)(callback x := None),
           exchanges := (exchanges w)(n \<mapsto> x\<lparr> body := d, finished := True \<rparr>) \<rparr>"
  | q where "step a w = w\<lparr> microtasks := q \<rparr>"
  | n x q where "exchanges w n = Some x" and "stopped x"
      and "step a w = cleanup n (w\<lparr> microtasks := q \<rparr>)"
  | n x q es where "exchanges w n = Some x" and "\<not> stopped x"
      and "step a w = closing n x es (w\<lparr> microtasks := q \<rparr>)"
      and "es = [] \<or> (\<exists>c. es = [Error (HttpErrorResponse c 0 ''JSONP Error'' (url x))]) \<or>
           (\<exists>b. es = [Next (newHttpResponse b 200 ''OK'' (url x)), Complete])"
proof (cases a)
  case (Request req)
  with step_Request_cases [of req w] that(1,2) show thesis by blast
next
  case (Call name args)
  show thesis
  proof (cases "callbackMap w name")
    case None
    with Call that(1) show thesis by simp
  next
    case (Some n)
    show thesis
    proof (cases "exchanges w n")
      case None
      with Call Some that(1) show thesis by (simp add: responseCallback_def)
    next
      case (Some x)
      with Call \<open>callbackMap w name = Some n\<close>
      have "step a w =
        w\<lparr> callbackMap := (callbackMap w)(callback x := None),
           exchanges := (exchanges w)(n \<mapsto> x\<lparr> body := firstArgument args, finished := True \<rparr>) \<rparr>"
        by (simp add: responseCallback_effect)
      with Some that(3) show thesis by blast
    qed
  qed
next
  case (LoadEvent n)
  show thesis
  proof (cases "exchanges w n")
    case None
    with LoadEvent that(1) show thesis by simp
  next
    case (Some x)
    with LoadEvent have "step a w = w\<lparr> microtasks := microtasks w @ [n] \<rparr>"
      by (simp add: onLoad_def)
    with that(4) show thesis by blast
  qed
next
  case (ErrorEvent n e)
  show thesis
  proof (cases "exchanges w n")
    case None
    with ErrorEvent that(1) show thesis by (simp add: missing_node)
  next
    case (Some x)
    show thesis
    proof (cases "stopped x")
      case True
      with ErrorEvent Some have "step a w = cleanup n (w\<lparr> microtasks := microtasks w \<rparr>)"
        by (simp add: stopped_paths)
      with Some True that(5) show thesis by blast
    next
      case False
      with ErrorEvent Some
      have "step a w = closing n x [Error (HttpErrorResponse (EventCause e) 0 ''JSONP Error'' (url x))]
          (w\<lparr> microtasks := microtasks w \<rparr>)"
        by (simp add: onError_closing)
      with Some False that(6) show thesis by blast
    qed
  qed
next
  case Microtask
  show thesis
  proof (cases "microtasks w")
    case Nil
    with Microtask that(1) show thesis by simp
  next
    case (Cons n q)
    show thesis
    proof (cases "exchanges w n")
      case None
      then have "step a w = w\<lparr> microtasks := q \<rparr>"
        using Microtask Cons by (simp add: missing_node)
      with that(4) show thesis by blast
    next
      case (Some x)
      show thesis
      proof (cases "stopped x")
        case True
        with Microtask Cons Some have "step a w = cleanup n (w\<lparr> microtasks := q \<rparr>)"
          by (simp add: stopped_paths)
        with Some True that(5) show thesis by blast
      next
        case False
        with Microtask Cons Some
        have "step a w = closing n x
            (if finished x then [Next (newHttpResponse (body x) 200 ''OK'' (url x)), Complete]
             else [Error (HttpErrorResponse (ErrorObject JSONP_ERR_NO_CALLBACK) 0
                     ''JSONP Error'' (url x))]) (w\<lparr> microtasks := q \<rparr>)"
          by (simp add: onLoadDeferred_closing)
        with Some False that(6) [of n x _ q] show thesis by (cases "finished x") auto
      qed
    qed
  qed
next
  case (Unsubscribe n)
  show thesis
  proof (cases "exchanges w n")
    case None
    with Unsubscribe that(1) show thesis by (simp add: missing_node)
  next
    case (Some x)
    show thesis
    proof (cases "stopped x")
      case True
      with Unsubscribe Some that(1) show thesis by (simp add: stopped_paths)
    next
      case False
      with Unsubscribe Some have "step a w = closing n x [] (w\<lparr> microtasks := microtasks w \<rparr>)"
        by (simp add: unsubscribe_closing)
      with Some False that(6) show thesis by blast
    qed
  qed
qed

lemma localStep_refl: "localStep x x"
  by (simp add: localStep_def)

lemma subscribe_fields:
  "microtasks (snd (subscribe obs w)) = microtasks w"
  "bodyChildren (snd (subscribe obs w)) = bodyChildren w @ [nodesCreated w]"
  "callbackMap (snd (subscribe obs w)) = (callbackMap w)(fst (nextCallback w) \<mapsto> nodesCreated w)"
  by (cases obs; simp add: subscribe_def nextCallback_def Let_def closure_defs)+

lemma step_existing:
  assumes "exchanges w n = Some x" and "n < nodesCreated w"
  shows "\<exists>x'. exchanges (step a w) n = Some x' \<and> localStep x x'"
proof (cases rule: step_cases [of a w])
  case same
  with assms show ?thesis by (simp add: localStep_refl del: step.simps)
next
  case (subscribed req)
  with assms show ?thesis by (simp add: subscribe_exchanges localStep_refl del: step.simps)
next
  case (answered m y d)
  with assms show ?thesis by (auto simp: localStep_def simp del: step.simps)
next
  case (queued q)
  with assms show ?thesis by (simp add: localStep_refl del: step.simps)
next
  case (cleaned m y q)
  with assms show ?thesis by (simp add: cleanup_def localStep_refl del: step.simps)
next
  case (ended m y q es)
  with assms show ?thesis by (auto simp: closing_def localStep_def simp del: step.simps)
qed

lemma step_fresh:
  assumes "exchanges w n = None" and "exchanges (step a w) n = Some x'"
  shows "n = nodesCreated w \<and> emitted x' = [Next Sent] \<and> \<not> stopped x' \<and>
         callback x' = fst (nextCallback w) \<and>
         nextRequestId (step a w) = postIncrement (nextRequestId w) \<and>
         nodesCreated (step a w) = Suc (nodesCreated w)"
proof (cases rule: step_cases [of a w])
  case same
  with assms show ?thesis by simp
next
  case (subscribed req)
  with assms show ?thesis
    by (auto simp: subscribe_exchanges subscribe_nextRequestId subscribe_nodesCreated
        simp del: step.simps split: if_splits)
next
  case (answered m y d)
  with assms show ?thesis by (auto simp del: step.simps split: if_splits)
next
  case (queued q)
  with assms show ?thesis by simp
next
  case (cleaned m y q)
  with assms show ?thesis by (simp add: cleanup_def del: step.simps)
next
  case (ended m y q es)
  with assms show ?thesis by (auto simp: closing_def simp del: step.simps split: if_splits)
qed

lemma step_nodesCreated: "nodesCreated w \<le> nodesCreated (step a w)"
proof (cases rule: step_cases [of a w])
  case (subscribed req)
  then show ?thesis by (simp add: subscribe_nodesCreated del: step.simps)
next
  case (cleaned m y q)
  then show ?thesis by (simp add: cleanup_def del: step.simps)
next
  case (ended m y q es)
  then show ?thesis by (simp add: closing_def del: step.simps)
qed (simp_all del: step.simps)

lemma step_documents:
  "foreignDocument (step a w) = foreignDocument w \<and>
     documentsCreated (step a w) = documentsCreated w
   \<or> foreignDocument w = None \<and> foreignDocument (step a w) = Some (documentsCreated w) \<and>
     documentsCreated (step a w) = documentsCreated w + 1"
proof (cases rule: step_cases [of a w])
  case (subscribed req)
  then show ?thesis by (simp add: subscribe_foreignDocument del: step.simps)
next
  case (cleaned m y q)
  then show ?thesis by (simp add: cleanup_def del: step.simps)
next
  case (ended m y q es)
  then show ?thesis by (cases "foreignDocument w") (simp_all add: closing_def del: step.simps)
qed (simp_all del: step.simps)

lemma step_nextRequestId:
  "nextRequestId (step a w) = nextRequestId w \<or>
   nextRequestId (step a w) = postIncrement (nextRequestId w)"
proof (cases rule: step_cases [of a w])
  case (subscribed req)
  then show ?thesis by (simp add: subscribe_nextRequestId del: step.simps)
next
  case (cleaned m y q)
  then show ?thesis by (simp add: cleanup_def del: step.simps)
next
  case (ended m y q es)
  then show ?thesis by (simp add: closing_def del: step.simps)
qed (simp_all del: step.simps)

lemma run_append: "run (as @ bs) w = run bs (run as w)"
  by (induction as arbitrary: w) simp_all

lemma run_snoc: "run (as @ [a]) w = step a (run as w)"
  by (simp add: run_append)

lemma bounded_step: "bounded w \<Longrightarrow> bounded (step a w)"
  unfolding bounded_def
proof (intro allI impI)
  fix n
  assume b: "\<forall>n. exchanges w n \<noteq> None \<longrightarrow> n < nodesCreated w"
    and n: "exchanges (step a w) n \<noteq> None"
  show "n < nodesCreated (step a w)"
  proof (cases "exchanges w n")
    case None
    with n step_fresh [of w n a] show ?thesis by auto
  next
    case (Some x)
    with b have "n < nodesCreated w" by simp
    with step_nodesCreated [of w a] show ?thesis by simp
  qed
qed

lemma bounded_run: "bounded w \<Longrightarrow> bounded (run as w)"
  by (induction as arbitrary: w) (simp_all add: bounded_step del: step.simps)

lemma bounded_initial: "bounded initial"
  by (simp add: bounded_def initial_def)

subsection \<open>Requests that are refused\<close>

text \<open>
  C3. \<open>handle\<close> throws exactly when the request breaks a precondition, and the checks
  come in this order: a method other than JSONP gives the wrong-method message; otherwise
  a response type other than json gives the wrong-response-type message; otherwise a
  header gives the headers message. In every case \<open>handle\<close> leaves the world as it
  found it, and a refused request changes nothing at all: no callback name is taken, the
  callback map is untouched and no script node is added.
\<close>

theorem handle_preconditions:
  "((\<exists>message. fst (handle req w) = Inl message) \<longleftrightarrow>
      method req \<noteq> ''JSONP'' \<or> responseType req \<noteq> ''json'' \<or> headerKeys req \<noteq> [])
   \<and> (method req \<noteq> ''JSONP'' \<longrightarrow>
        fst (handle req w) = Inl ''JSONP requests must use JSONP request method.'')
   \<and> (method req = ''JSONP'' \<and> responseType req \<noteq> ''json'' \<longrightarrow>
        fst (handle req w) = Inl ''JSONP requests must use Json response type.'')
   \<and> (method req = ''JSONP'' \<and> responseType req = ''json'' \<and> headerKeys req \<noteq> [] \<longrightarrow>
        fst (handle req w) = Inl ''JSONP requests do not support headers.'')
   \<and> snd (handle req w) = w
   \<and> ((\<exists>message. fst (handle req w) = Inl message) \<longrightarrow> step (Request req) w = w)"
  by (simp add: handle_def JSONP_ERR_WRONG_METHOD_def JSONP_ERR_WRONG_RESPONSE_TYPE_def
      JSONP_ERR_HEADERS_NOT_SUPPORTED_def split: prod.splits)

theorem handle_preconditions_witness:
  "fst (handle \<lparr> method = ''GET'', responseType = ''text'', headerKeys = [''Accept''],
                 urlWithParams = ''/x?cb=JSONP_CALLBACK'' \<rparr> initial)
     = Inl ''JSONP requests must use JSONP request method.''
   \<and> fst (handle \<lparr> method = ''JSONP'', responseType = ''text'', headerKeys = [''Accept''],
                   urlWithParams = ''/x?cb=JSONP_CALLBACK'' \<rparr> initial)
     = Inl ''JSONP requests must use Json response type.''
   \<and> fst (handle \<lparr> method = ''JSONP'', responseType = ''json'', headerKeys = [''Accept''],
                   urlWithParams = ''/x?cb=JSONP_CALLBACK'' \<rparr> initial)
     = Inl ''JSONP requests do not support headers.''
   \<and> step (Request \<lparr> method = ''JSONP'', responseType = ''json'', headerKeys = [''Accept''],
                   urlWithParams = ''/x?cb=JSONP_CALLBACK'' \<rparr>) initial = initial"
  using
    handle_preconditions [of "\<lparr> method = ''GET'', responseType = ''text'',
      headerKeys = [''Accept''], urlWithParams = ''/x?cb=JSONP_CALLBACK'' \<rparr>" initial]
    handle_preconditions [of "\<lparr> method = ''JSONP'', responseType = ''text'',
      headerKeys = [''Accept''], urlWithParams = ''/x?cb=JSONP_CALLBACK'' \<rparr>" initial]
    handle_preconditions [of "\<lparr> method = ''JSONP'', responseType = ''json'',
      headerKeys = [''Accept''], urlWithParams = ''/x?cb=JSONP_CALLBACK'' \<rparr>" initial]
  by simp

subsection \<open>The rewritten URL\<close>

text \<open>
  C7. When the URL is \<open>pre\<close>, the placeholder, \<open>suf\<close>, where \<open>suf\<close> is empty or starts
  with an ampersand and the placeholder does not occur before, the rewritten URL is
  \<open>pre\<close>, an equals sign, the callback name, \<open>suf\<close>: one substitution, at the first
  occurrence, the delimiter kept and nothing else changed. When the placeholder does not
  occur, the URL is unchanged. A valid request is subscribed with the rewritten URL, and
  without the placeholder the exchange starts all the same: its URL is the request's and
  "sent" is emitted.
\<close>

theorem url_rewrite_exact:
  "(u = pre @ placeholder @ suf \<and> (suf = [] \<or> hd suf = CHR ''&'') \<and>
      (\<forall>j<length pre. \<not> occursAt u j) \<longrightarrow>
        replaceCallback cb u = pre @ ''='' @ cb @ suf)
   \<and> ((\<forall>i. \<not> occursAt u i) \<longrightarrow> replaceCallback cb u = u)
   \<and> (method req = ''JSONP'' \<and> responseType req = ''json'' \<and> headerKeys req = [] \<longrightarrow>
        (\<exists>x. exchanges (step (Request req) w) (nodesCreated w) = Some x \<and>
             url x = replaceCallback (fst (nextCallback w)) (urlWithParams req) \<and>
             ((\<forall>i. \<not> occursAt (urlWithParams req) i) \<longrightarrow>
                url x = urlWithParams req \<and> emitted x = [Next Sent] \<and> \<not> stopped x)))"
proof (intro conjI impI)
  assume "u = pre @ placeholder @ suf \<and> (suf = [] \<or> hd suf = CHR ''&'') \<and>
      (\<forall>j<length pre. \<not> occursAt u j)"
  then show "replaceCallback cb u = pre @ ''='' @ cb @ suf"
    using replaceCallback_decomposed [of u pre suf cb] by blast
next
  assume "\<forall>i. \<not> occursAt u i"
  then show "replaceCallback cb u = u" by (rule replaceCallback_absent)
next
  assume v: "method req = ''JSONP'' \<and> responseType req = ''json'' \<and> headerKeys req = []"
  then have "step (Request req) w = snd (subscribe (Observable req) w)"
    using step_Request_valid by blast
  then show "\<exists>x. exchanges (step (Request req) w) (nodesCreated w) = Some x \<and>
             url x = replaceCallback (fst (nextCallback w)) (urlWithParams req) \<and>
             ((\<forall>i. \<not> occursAt (urlWithParams req) i) \<longrightarrow>
                url x = urlWithParams req \<and> emitted x = [Next Sent] \<and> \<not> stopped x)"
    by (simp add: subscribe_exchanges replaceCallback_absent del: step.simps)
qed

theorem url_rewrite_exact_witness:
  "replaceCallback ''c7'' ''/x?cb=JSONP_CALLBACK&y=1'' = ''/x?cb=c7&y=1''
   \<and> replaceCallback ''c7'' ''/x?a=JSONP_CALLBACK&b=JSONP_CALLBACK''
       = ''/x?a=c7&b=JSONP_CALLBACK''
   \<and> replaceCallback ''c7'' ''/x?y=1'' = ''/x?y=1''
   \<and> (\<exists>x. exchanges (step (Request \<lparr> method = ''JSONP'', responseType = ''json'',
              headerKeys = [], urlWithParams = ''/x?y=1'' \<rparr>) initial) 0 = Some x \<and>
            url x = ''/x?y=1'' \<and> emitted x = [Next Sent] \<and> \<not> stopped x)"
proof -
  have a: "\<forall>j<length ''/x?cb''. \<not> occursAt (''/x?cb'' @ ''=JSONP_CALLBACK&y=1'') j"
    by (rule no_occurrence_in_prefix) simp
  have a2: "\<forall>j<length ''/x?a''. \<not> occursAt (''/x?a'' @ ''=JSONP_CALLBACK&b=JSONP_CALLBACK'') j"
    by (rule no_occurrence_in_prefix) simp
  have b: "\<forall>i. \<not> occursAt ''/x?y=1'' i"
    by (simp add: occursAt_short placeholder_def)
  have n: "nodesCreated initial = 0" by (simp add: initial_def)
  show ?thesis
    using a a2 b n
      url_rewrite_exact [of "''/x?cb=JSONP_CALLBACK&y=1''" "''/x?cb''" "''&y=1''" "''c7''"
        "\<lparr> method = ''JSONP'', responseType = ''json'', headerKeys = [],
           urlWithParams = ''/x?y=1'' \<rparr>" initial]
      url_rewrite_exact [of "''/x?a=JSONP_CALLBACK&b=JSONP_CALLBACK''" "''/x?a''"
        "''&b=JSONP_CALLBACK''" "''c7''"
        "\<lparr> method = ''JSONP'', responseType = ''json'', headerKeys = [],
           urlWithParams = ''/x?y=1'' \<rparr>" initial]
      url_rewrite_exact [of "''/x?y=1''" "[]" "[]" "''c7''"
        "\<lparr> method = ''JSONP'', responseType = ''json'', headerKeys = [],
           urlWithParams = ''/x?y=1'' \<rparr>" initial]
    by (simp add: placeholder_def del: step.simps replaceCallback.simps) blast
qed

subsection \<open>The outcome of a completed load\<close>

lemma step_Call_registered:
  "exchanges w n = Some x \<Longrightarrow> callbackMap w name = Some n \<Longrightarrow>
   step (Call name args) w =
     w\<lparr> callbackMap := (callbackMap w)(callback x := None),
        exchanges := (exchanges w)(n \<mapsto> x\<lparr> body := firstArgument args, finished := True \<rparr>) \<rparr>"
  by (simp add: responseCallback_effect)

lemma step_LoadEvent_existing:
  "exchanges w n = Some x \<Longrightarrow> step (LoadEvent n) w = w\<lparr> microtasks := microtasks w @ [n] \<rparr>"
  by (simp add: onLoad_def)

lemma step_Microtask_running:
  "microtasks w = n # queue \<Longrightarrow> exchanges w n = Some x \<Longrightarrow> \<not> stopped x \<Longrightarrow>
   step Microtask w =
     closing n x
       (if finished x then [Next (newHttpResponse (body x) 200 ''OK'' (url x)), Complete]
        else [Error (HttpErrorResponse (ErrorObject JSONP_ERR_NO_CALLBACK) 0 ''JSONP Error''
                (url x))]) (w\<lparr> microtasks := queue \<rparr>)"
  by (simp add: onLoadDeferred_closing)

lemma emittedBy_closing:
  "emittedBy n (closing n x es w) = emitted x @ es"
  by (simp add: emittedBy_def closing_def)

lemma replaceCallback_nonempty: "u \<noteq> [] \<Longrightarrow> replaceCallback cb u \<noteq> []"
  by (cases u) (auto split: option.splits)

text \<open>
  C1. For a running subscription, the deferred part of \<open>onLoad\<close> emits, after the events
  so far, the response made from the body received, status 200, status text OK and the
  rewritten URL, and then the completion, if the callback has run; otherwise the error
  with the no-callback message, status 0 and the rewritten URL. So when the registered
  callback is called with a value \<open>P\<close>, the load event fires and the microtask runs,
  the response has body \<open>P\<close>, status 200, status text OK and the rewritten URL; when
  the callback is called with no argument, the outcome is still a response, and its body
  is \<open>null\<close>, the value for "no content"; and when the callback has not been called,
  the outcome is the error. The last parts say the same of a valid request from its
  subscription on, in any world whose microtask queue is empty: the events are "sent",
  then the response and the completion, or "sent", then the error. (A response shows the
  URL where that is not empty; the constructor turns an empty one into \<open>null\<close>, and the
  part on any list of arguments covers that case too.)
\<close>

theorem onLoad_outcome:
  "(exchanges w node = Some x \<and> \<not> stopped x \<longrightarrow>
      emittedBy node (onLoadDeferred node w) =
        emitted x @
          (if finished x then [Next (newHttpResponse (body x) 200 ''OK'' (url x)), Complete]
           else [Error (HttpErrorResponse
                   (ErrorObject ''JSONP injected script did not invoke callback.'') 0
                   ''JSONP Error'' (url x))]))
   \<and> (exchanges w node = Some x \<and> \<not> stopped x \<and> microtasks w = [] \<and>
        callbackMap w (callback x) = Some node \<and> url x \<noteq> [] \<longrightarrow>
      (P \<noteq> JUndefined \<longrightarrow>
         emittedBy node (run [Call (callback x) [P], LoadEvent node, Microtask] w) =
           emitted x @ [Next (HttpResponse P 200 ''OK'' (Some (url x))), Complete]) \<and>
      emittedBy node (run [Call (callback x) [], LoadEvent node, Microtask] w) =
        emitted x @ [Next (HttpResponse JNull 200 ''OK'' (Some (url x))), Complete])
   \<and> (exchanges w node = Some x \<and> \<not> stopped x \<and> microtasks w = [] \<and>
        callbackMap w (callback x) = Some node \<longrightarrow>
      emittedBy node (run [Call (callback x) args, LoadEvent node, Microtask] w) =
        emitted x @
          [Next (newHttpResponse (firstArgument args) 200 ''OK'' (url x)), Complete])
   \<and> (exchanges w node = Some x \<and> \<not> stopped x \<and> microtasks w = [] \<and> \<not> finished x \<longrightarrow>
      emittedBy node (run [LoadEvent node, Microtask] w) =
        emitted x @ [Error (HttpErrorResponse
                   (ErrorObject ''JSONP injected script did not invoke callback.'') 0
                   ''JSONP Error'' (url x))])
   \<and> (method req = ''JSONP'' \<and> responseType req = ''json'' \<and> headerKeys req = [] \<and>
        microtasks w = [] \<and> urlWithParams req \<noteq> [] \<longrightarrow>
      (P \<noteq> JUndefined \<longrightarrow>
         emittedBy (nodesCreated w)
           (run [Request req, Call (fst (nextCallback w)) [P], LoadEvent (nodesCreated w),
                 Microtask] w) =
           [Next Sent,
            Next (HttpResponse P 200 ''OK''
              (Some (replaceCallback (fst (nextCallback w)) (urlWithParams req)))),
            Complete]) \<and>
      emittedBy (nodesCreated w)
        (run [Request req, Call (fst (nextCallback w)) [], LoadEvent (nodesCreated w),
              Microtask] w) =
        [Next Sent,
         Next (HttpResponse JNull 200 ''OK''
           (Some (replaceCallback (fst (nextCallback w)) (urlWithParams req)))),
         Complete])
   \<and> (method req = ''JSONP'' \<and> responseType req = ''json'' \<and> headerKeys req = [] \<and>
        microtasks w = [] \<longrightarrow>
      emittedBy (nodesCreated w) (run [Request req, LoadEvent (nodesCreated w), Microtask] w) =
        [Next Sent,
         Error (HttpErrorResponse
           (ErrorObject ''JSONP injected script did not invoke callback.'') 0 ''JSONP Error''
           (replaceCallback (fst (nextCallback w)) (urlWithParams req)))])"
proof -
  have answered:
    "emittedBy node (run [Call (callback x) args, LoadEvent node, Microtask] w) =
       emitted x @ [Next (newHttpResponse (firstArgument args) 200 ''OK'' (url x)), Complete]"
    if x: "exchanges w node = Some x" and run: "\<not> stopped x" and q: "microtasks w = []"
      and reg: "callbackMap w (callback x) = Some node"
    for w node x args
  proof -
    define x1 where "x1 = x\<lparr> body := firstArgument args, finished := True \<rparr>"
    define w1 where "w1 = step (Call (callback x) args) w"
    define w2 where "w2 = step (LoadEvent node) w1"
    have w1: "exchanges w1 node = Some x1" "microtasks w1 = []"
      unfolding w1_def x1_def step_Call_registered [OF x reg] using q by simp_all
    have w2: "exchanges w2 node = Some x1" "microtasks w2 = [node]"
      unfolding w2_def step_LoadEvent_existing [OF w1(1)] using w1 by simp_all
    have "\<not> stopped x1" "finished x1" using run by (simp_all add: x1_def)
    from step_Microtask_running [OF w2(2) w2(1) this(1)] this(2)
    have "emittedBy node (step Microtask w2) =
        emitted x1 @ [Next (newHttpResponse (body x1) 200 ''OK'' (url x1)), Complete]"
      by (simp add: emittedBy_closing)
    then show ?thesis by (simp add: w2_def w1_def x1_def del: step.simps)
  qed
  have silent:
    "emittedBy node (run [LoadEvent node, Microtask] w) =
       emitted x @ [Error (HttpErrorResponse
                   (ErrorObject ''JSONP injected script did not invoke callback.'') 0
                   ''JSONP Error'' (url x))]"
    if x: "exchanges w node = Some x" and run: "\<not> stopped x" and q: "microtasks w = []"
      and never: "\<not> finished x"
    for w node x
  proof -
    define w1 where "w1 = step (LoadEvent node) w"
    have w1: "exchanges w1 node = Some x" "microtasks w1 = [node]"
      unfolding w1_def step_LoadEvent_existing [OF x] using x q by simp_all
    from step_Microtask_running [OF w1(2) w1(1) run] never
    have "emittedBy node (step Microtask w1) =
        emitted x @ [Error (HttpErrorResponse (ErrorObject JSONP_ERR_NO_CALLBACK) 0
                  ''JSONP Error'' (url x))]"
      by (simp add: emittedBy_closing)
    then show ?thesis by (simp add: w1_def JSONP_ERR_NO_CALLBACK_def del: step.simps)
  qed
  have check: "emittedBy node (onLoadDeferred node w) =
        emitted x @
          (if finished x then [Next (newHttpResponse (body x) 200 ''OK'' (url x)), Complete]
           else [Error (HttpErrorResponse
                   (ErrorObject ''JSONP injected script did not invoke callback.'') 0
                   ''JSONP Error'' (url x))])"
    if "exchanges w node = Some x" and "\<not> stopped x"
    using that by (simp add: onLoadDeferred_closing emittedBy_closing JSONP_ERR_NO_CALLBACK_def)
  have made: "newHttpResponse (firstArgument [P]) 200 ''OK'' u = HttpResponse P 200 ''OK'' (Some u)"
    if "P \<noteq> JUndefined" and "u \<noteq> []" for u
    using that by (simp add: newHttpResponse_def firstArgument_def)
  have made_empty:
    "newHttpResponse (firstArgument []) 200 ''OK'' u = HttpResponse JNull 200 ''OK'' (Some u)"
    if "u \<noteq> []" for u
    using that by (simp add: newHttpResponse_def firstArgument_def)
  have whole: "emittedBy (nodesCreated w)
        (run [Request req, Call (fst (nextCallback w)) args, LoadEvent (nodesCreated w),
              Microtask] w) =
        [Next Sent,
         Next (newHttpResponse (firstArgument args) 200 ''OK''
           (replaceCallback (fst (nextCallback w)) (urlWithParams req))),
         Complete]"
    and whole_silent:
      "emittedBy (nodesCreated w) (run [Request req, LoadEvent (nodesCreated w), Microtask] w) =
        [Next Sent,
         Error (HttpErrorResponse
           (ErrorObject ''JSONP injected script did not invoke callback.'') 0 ''JSONP Error''
           (replaceCallback (fst (nextCallback w)) (urlWithParams req)))]"
    if valid: "method req = ''JSONP''" "responseType req = ''json''" "headerKeys req = []"
      and q: "microtasks w = []"
    for args
  proof -
    define w0 where "w0 = step (Request req) w"
    define x0 where "x0 = \<lparr> callback = fst (nextCallback w),
         url = replaceCallback (fst (nextCallback w)) (urlWithParams req),
         body = JNull, finished = False, ownerDocument = None, stopped = False,
         emitted = [Next Sent] \<rparr>"
    have s: "w0 = snd (subscribe (Observable req) w)"
      unfolding w0_def using valid by (rule step_Request_valid)
    have x0: "exchanges w0 (nodesCreated w) = Some x0"
      unfolding s x0_def by (simp add: subscribe_exchanges)
    have q0: "microtasks w0 = []" unfolding s using q by (simp add: subscribe_fields)
    have reg: "callbackMap w0 (callback x0) = Some (nodesCreated w)"
      unfolding s x0_def by (simp add: subscribe_fields)
    have run: "\<not> stopped x0" and never: "\<not> finished x0" by (simp_all add: x0_def)
    from answered [OF x0 run q0 reg, of args]
    show "emittedBy (nodesCreated w)
        (run [Request req, Call (fst (nextCallback w)) args, LoadEvent (nodesCreated w),
              Microtask] w) =
        [Next Sent,
         Next (newHttpResponse (firstArgument args) 200 ''OK''
           (replaceCallback (fst (nextCallback w)) (urlWithParams req))),
         Complete]"
      by (simp add: w0_def x0_def del: step.simps)
    from silent [OF x0 run q0 never]
    show "emittedBy (nodesCreated w)
        (run [Request req, LoadEvent (nodesCreated w), Microtask] w) =
        [Next Sent,
         Error (HttpErrorResponse
           (ErrorObject ''JSONP injected script did not invoke callback.'') 0 ''JSONP Error''
           (replaceCallback (fst (nextCallback w)) (urlWithParams req)))]"
      by (simp add: w0_def x0_def del: step.simps)
  qed
  have rewritten: "replaceCallback (fst (nextCallback w)) (urlWithParams req) \<noteq> []"
    if "urlWithParams req \<noteq> []"
    using that by (rule replaceCallback_nonempty)
  from check answered [of w node x "[P]"] answered [of w node x "[]"]
    answered [of w node x args] silent [of w node x]
    whole [of "[P]"] whole [of "[]"] whole_silent
    made [of "url x"] made_empty [of "url x"]
    made [of "replaceCallback (fst (nextCallback w)) (urlWithParams req)"]
    made_empty [of "replaceCallback (fst (nextCallback w)) (urlWithParams req)"] rewritten
  show ?thesis by (simp del: run.simps)
qed

theorem onLoad_outcome_witness:
  "emittedBy 0 (run [Call ''ng_jsonp_callback_0'' [JNum 5], LoadEvent 0, Microtask]
     (step (Request \<lparr> method = ''JSONP'', responseType = ''json'', headerKeys = [],
        urlWithParams = ''/x?cb=JSONP_CALLBACK&y=1'' \<rparr>) initial))
     = [Next Sent,
        Next (HttpResponse (JNum 5) 200 ''OK'' (Some ''/x?cb=ng_jsonp_callback_0&y=1'')),
        Complete]
   \<and> emittedBy 0 (run [Call ''ng_jsonp_callback_0'' [], LoadEvent 0, Microtask]
     (step (Request \<lparr> method = ''JSONP'', responseType = ''json'', headerKeys = [],
        urlWithParams = ''/x?cb=JSONP_CALLBACK&y=1'' \<rparr>) initial))
     = [Next Sent,
        Next (HttpResponse JNull 200 ''OK'' (Some ''/x?cb=ng_jsonp_callback_0&y=1'')),
        Complete]
   \<and> emittedBy 0 (run [LoadEvent 0, Microtask]
     (step (Request \<lparr> method = ''JSONP'', responseType = ''json'', headerKeys = [],
        urlWithParams = ''/x?cb=JSONP_CALLBACK&y=1'' \<rparr>) initial))
     = [Next Sent,
        Error (HttpErrorResponse
          (ErrorObject ''JSONP injected script did not invoke callback.'') 0 ''JSONP Error''
          ''/x?cb=ng_jsonp_callback_0&y=1'')]"
proof -
  let ?w = "step (Request \<lparr> method = ''JSONP'', responseType = ''json'', headerKeys = [],
        urlWithParams = ''/x?cb=JSONP_CALLBACK&y=1'' \<rparr>) initial"
  let ?x = "\<lparr> callback = ''ng_jsonp_callback_0'', url = ''/x?cb=ng_jsonp_callback_0&y=1'',
       body = JNull, finished = False, ownerDocument = None, stopped = False,
       emitted = [Next Sent] \<rparr>"
  have x: "exchanges ?w 0 = Some ?x" by (simp add: eval_defs)
  have q: "microtasks ?w = []" by (simp add: eval_defs)
  have c: "callbackMap ?w ''ng_jsonp_callback_0'' = Some 0" by (simp add: eval_defs)
  show ?thesis
    using onLoad_outcome [of ?w 0 ?x "JNum 5" "[]"
        "\<lparr> method = ''JSONP'', responseType = ''json'', headerKeys = [],
           urlWithParams = ''/x?cb=JSONP_CALLBACK&y=1'' \<rparr>"] x q c
    by (simp del: run.simps step.simps)
qed

subsection \<open>The shape of the event stream\<close>

lemma wellFormed_localStep:
  "wellFormed (emitted x) (stopped x) \<Longrightarrow> localStep x x' \<Longrightarrow>
   wellFormed (emitted x') (stopped x')"
  by (auto simp: wellFormed_def localStep_def newHttpResponse_def)

lemma streams_ok_step: "streams_ok w \<Longrightarrow> streams_ok (step a w)"
  unfolding streams_ok_def
proof (intro conjI allI impI)
  assume "bounded w \<and> (\<forall>n x. exchanges w n = Some x \<longrightarrow> wellFormed (emitted x) (stopped x))"
  then show "bounded (step a w)" by (simp add: bounded_step del: step.simps)
next
  fix n x'
  assume ok: "bounded w \<and> (\<forall>n x. exchanges w n = Some x \<longrightarrow> wellFormed (emitted x) (stopped x))"
    and x': "exchanges (step a w) n = Some x'"
  show "wellFormed (emitted x') (stopped x')"
  proof (cases "exchanges w n")
    case None
    from step_fresh [OF None x'] show ?thesis by (simp add: wellFormed_def)
  next
    case (Some x)
    with ok have "n < nodesCreated w" and wf: "wellFormed (emitted x) (stopped x)"
      by (auto simp: bounded_def)
    from step_existing [OF Some this(1), of a] x' have "localStep x x'" by auto
    with wf show ?thesis by (rule wellFormed_localStep)
  qed
qed

lemma streams_ok_run: "streams_ok w \<Longrightarrow> streams_ok (run as w)"
  by (induction as arbitrary: w) (simp_all add: streams_ok_step del: step.simps)

lemma streams_ok_initial: "streams_ok initial"
  by (simp add: streams_ok_def bounded_initial) (simp add: initial_def)

lemma stopped_step:
  assumes "exchanges w n = Some x" and "stopped x" and "bounded w"
  shows "\<exists>x'. exchanges (step a w) n = Some x' \<and> stopped x' \<and> emitted x' = emitted x"
proof -
  from assms(1,3) have "n < nodesCreated w" by (auto simp: bounded_def)
  from step_existing [OF assms(1) this, of a] assms(2) show ?thesis
    by (auto simp: localStep_def)
qed

lemma stopped_run:
  "exchanges w n = Some x \<Longrightarrow> stopped x \<Longrightarrow> bounded w \<Longrightarrow>
   \<exists>x'. exchanges (run as w) n = Some x' \<and> stopped x' \<and> emitted x' = emitted x"
proof (induction as arbitrary: w x)
  case Nil
  then show ?case by simp
next
  case (Cons a as)
  from stopped_step [OF Cons.prems, of a]
  obtain x1 where x1: "exchanges (step a w) n = Some x1" "stopped x1" "emitted x1 = emitted x"
    by auto
  from Cons.IH [OF x1(1,2) bounded_step [OF Cons.prems(3)]] x1(3) show ?case by simp
qed

lemma unsubscribe_stops:
  assumes "exchanges w n = Some x"
  shows "\<exists>x'. exchanges (unsubscribe n w) n = Some x' \<and> stopped x' \<and> emitted x' = emitted x"
proof (cases "stopped x")
  case True
  with assms show ?thesis by (simp add: stopped_paths)
next
  case False
  with assms show ?thesis by (simp add: unsubscribe_closing closing_def)
qed

text \<open>
  C4. Subscribing to a valid request emits "sent" at once and nothing else. In every
  world reached from the initial one, the events of each subscription are "sent" alone,
  or "sent" and then one terminal event: a response with the completion, or an error;
  so "sent" is emitted once, comes first, and no second terminal event follows. After
  the consumer has unsubscribed, whatever happens later (the callback being called, load
  and error events, microtasks), the events of the subscription stay as they were.
\<close>

theorem event_stream_shape:
  "(method req = ''JSONP'' \<and> responseType req = ''json'' \<and> headerKeys req = [] \<longrightarrow>
      emittedBy (nodesCreated w) (step (Request req) w) = [Next Sent])
   \<and> (exchanges (run as initial) node = Some x \<longrightarrow> wellFormed (emitted x) (stopped x))
   \<and> (exchanges (run as initial) node = Some x \<longrightarrow>
        emittedBy node (run (as @ Unsubscribe node # bs) initial) = emitted x)"
proof (intro conjI impI)
  assume "method req = ''JSONP'' \<and> responseType req = ''json'' \<and> headerKeys req = []"
  then have "step (Request req) w = snd (subscribe (Observable req) w)"
    using step_Request_valid by blast
  then show "emittedBy (nodesCreated w) (step (Request req) w) = [Next Sent]"
    by (simp add: emittedBy_def subscribe_exchanges del: step.simps)
next
  assume "exchanges (run as initial) node = Some x"
  with streams_ok_run [OF streams_ok_initial, of as]
  show "wellFormed (emitted x) (stopped x)" by (simp add: streams_ok_def)
next
  assume x: "exchanges (run as initial) node = Some x"
  define w where "w = run as initial"
  have b: "bounded w" unfolding w_def by (rule bounded_run [OF bounded_initial])
  from unsubscribe_stops [of w node x] x
  obtain x1 where x1: "exchanges (unsubscribe node w) node = Some x1" "stopped x1"
    "emitted x1 = emitted x" by (auto simp: w_def)
  have "bounded (step (Unsubscribe node) w)" using b by (rule bounded_step)
  then have "bounded (unsubscribe node w)" by simp
  from stopped_run [OF x1(1,2) this, of bs] x1(3)
  have "emittedBy node (run bs (unsubscribe node w)) = emitted x"
    by (auto simp: emittedBy_def)
  then show "emittedBy node (run (as @ Unsubscribe node # bs) initial) = emitted x"
    by (simp add: run_append w_def)
qed

theorem event_stream_shape_witness:
  "wellFormed
     [Next Sent, Next (HttpResponse (JNum 5) 200 ''OK'' (Some ''/x?cb=ng_jsonp_callback_0&y=1'')),
      Complete] True
   \<and> emittedBy 0
       (run ([Request \<lparr> method = ''JSONP'', responseType = ''json'', headerKeys = [],
               urlWithParams = ''/x?cb=JSONP_CALLBACK&y=1'' \<rparr>] @
             Unsubscribe 0 # [Call ''ng_jsonp_callback_0'' [JNum 5], LoadEvent 0, Microtask])
          initial) = [Next Sent]
   \<and> emittedBy 0
       (step (Request \<lparr> method = ''JSONP'', responseType = ''json'', headerKeys = [],
               urlWithParams = ''/x?cb=JSONP_CALLBACK&y=1'' \<rparr>) initial) = [Next Sent]"
proof -
  let ?r = "\<lparr> method = ''JSONP'', responseType = ''json'', headerKeys = [],
               urlWithParams = ''/x?cb=JSONP_CALLBACK&y=1'' \<rparr>"
  let ?u = "''/x?cb=ng_jsonp_callback_0&y=1''"
  have a: "exchanges (run [Request ?r, Call ''ng_jsonp_callback_0'' [JNum 5], LoadEvent 0,
             Microtask] initial) 0
     = Some \<lparr> callback = ''ng_jsonp_callback_0'', url = ?u, body = JNum 5, finished = True,
         ownerDocument = None, stopped = True,
         emitted = [Next Sent, Next (HttpResponse (JNum 5) 200 ''OK'' (Some ?u)), Complete] \<rparr>"
    by (simp add: eval_defs)
  have b: "exchanges (run [Request ?r] initial) 0
     = Some \<lparr> callback = ''ng_jsonp_callback_0'', url = ?u, body = JNull, finished = False,
         ownerDocument = None, stopped = False, emitted = [Next Sent] \<rparr>"
    by (simp add: eval_defs)
  have n: "nodesCreated initial = 0" by (simp add: initial_def)
  show ?thesis
    using
      event_stream_shape [of ?r initial
        "[Request ?r, Call ''ng_jsonp_callback_0'' [JNum 5], LoadEvent 0, Microtask]" 0
        "\<lparr> callback = ''ng_jsonp_callback_0'', url = ?u, body = JNum 5, finished = True,
           ownerDocument = None, stopped = True,
           emitted = [Next Sent, Next (HttpResponse (JNum 5) 200 ''OK'' (Some ?u)), Complete] \<rparr>"
        "[]"]
      event_stream_shape [of ?r initial "[Request ?r]" 0
        "\<lparr> callback = ''ng_jsonp_callback_0'', url = ?u, body = JNull, finished = False,
           ownerDocument = None, stopped = False, emitted = [Next Sent] \<rparr>"
        "[Call ''ng_jsonp_callback_0'' [JNum 5], LoadEvent 0, Microtask]"]
      a b n
    by (simp del: run.simps step.simps)
qed

subsection \<open>The deferral of the decision\<close>

text \<open>
  C2. The load handler decides nothing: it only puts its body on the microtask queue, and
  the subscriptions are as before. A call of the callback that comes after the load
  handler has run but before the microtask is taken still counts: nothing is emitted
  until the microtask runs, and then the outcome is the response with the value passed.
  (The theorem on the outcome of a completed load covers a call before the load event.)
\<close>

theorem deferred_decision:
  "(exchanges w node = Some x \<longrightarrow>
      step (LoadEvent node) w = w\<lparr> microtasks := microtasks w @ [node] \<rparr> \<and>
      exchanges (step (LoadEvent node) w) = exchanges w)
   \<and> (exchanges w node = Some x \<and> \<not> stopped x \<and> microtasks w = [] \<and>
        callbackMap w (callback x) = Some node \<longrightarrow>
      emittedBy node (run [LoadEvent node, Call (callback x) args] w) = emitted x \<and>
      emittedBy node (run [LoadEvent node, Call (callback x) args, Microtask] w) =
        emitted x @
          [Next (newHttpResponse (firstArgument args) 200 ''OK'' (url x)), Complete])"
proof (intro conjI impI; (elim conjE)?)
  assume x: "exchanges w node = Some x"
  then show "step (LoadEvent node) w = w\<lparr> microtasks := microtasks w @ [node] \<rparr>"
    by (rule step_LoadEvent_existing)
  then show "exchanges (step (LoadEvent node) w) = exchanges w" by (simp del: step.simps)
next
  assume x: "exchanges w node = Some x" and run: "\<not> stopped x" and q: "microtasks w = []"
    and reg: "callbackMap w (callback x) = Some node"
  define x2 where "x2 = x\<lparr> body := firstArgument args, finished := True \<rparr>"
  define w1 where "w1 = step (LoadEvent node) w"
  define w2 where "w2 = step (Call (callback x) args) w1"
  have w1: "exchanges w1 node = Some x" "microtasks w1 = [node]"
    "callbackMap w1 (callback x) = Some node"
    unfolding w1_def step_LoadEvent_existing [OF x] using x q reg by simp_all
  have w2: "exchanges w2 node = Some x2" "microtasks w2 = [node]"
    unfolding w2_def x2_def step_Call_registered [OF w1(1) w1(3)] using w1 by simp_all
  from w2(1) show "emittedBy node (run [LoadEvent node, Call (callback x) args] w) = emitted x"
    by (simp add: emittedBy_def w2_def w1_def x2_def del: step.simps)
  have "\<not> stopped x2" "finished x2" using run by (simp_all add: x2_def)
  from step_Microtask_running [OF w2(2) w2(1) this(1)] this(2)
  have "emittedBy node (step Microtask w2) =
      emitted x2 @ [Next (newHttpResponse (body x2) 200 ''OK'' (url x2)), Complete]"
    by (simp add: emittedBy_closing)
  then show "emittedBy node (run [LoadEvent node, Call (callback x) args, Microtask] w) =
      emitted x @ [Next (newHttpResponse (firstArgument args) 200 ''OK'' (url x)), Complete]"
    by (simp add: w2_def w1_def x2_def del: step.simps)
qed

theorem deferred_decision_witness:
  "emittedBy 0 (run [LoadEvent 0, Call ''ng_jsonp_callback_0'' [JStr ''late'']]
     (step (Request \<lparr> method = ''JSONP'', responseType = ''json'', headerKeys = [],
        urlWithParams = ''/x?cb=JSONP_CALLBACK&y=1'' \<rparr>) initial)) = [Next Sent]
   \<and> emittedBy 0 (run [LoadEvent 0, Call ''ng_jsonp_callback_0'' [JStr ''late''], Microtask]
     (step (Request \<lparr> method = ''JSONP'', responseType = ''json'', headerKeys = [],
        urlWithParams = ''/x?cb=JSONP_CALLBACK&y=1'' \<rparr>) initial))
     = [Next Sent,
        Next (HttpResponse (JStr ''late'') 200 ''OK'' (Some ''/x?cb=ng_jsonp_callback_0&y=1'')),
        Complete]"
proof -
  let ?w = "step (Request \<lparr> method = ''JSONP'', responseType = ''json'', headerKeys = [],
        urlWithParams = ''/x?cb=JSONP_CALLBACK&y=1'' \<rparr>) initial"
  let ?x = "\<lparr> callback = ''ng_jsonp_callback_0'', url = ''/x?cb=ng_jsonp_callback_0&y=1'',
       body = JNull, finished = False, ownerDocument = None, stopped = False,
       emitted = [Next Sent] \<rparr>"
  have x: "exchanges ?w 0 = Some ?x" by (simp add: eval_defs)
  have q: "microtasks ?w = []" by (simp add: eval_defs)
  have c: "callbackMap ?w ''ng_jsonp_callback_0'' = Some 0" by (simp add: eval_defs)
  show ?thesis
    using deferred_decision [of ?w 0 ?x "[JStr ''late'']"] x q c
    by (simp add: firstArgument_def newHttpResponse_def del: run.simps step.simps)
qed

subsection \<open>A load error\<close>

text \<open>
  C6. When the error event of a running subscription's script fires, the handler runs the
  cleanup and emits the error at once: after the step the error response with the
  event's value as cause, status 0 and the rewritten URL is emitted, the subscriber is
  stopped, the microtask queue is as before, the callback name is free and the node is
  off the page. Nothing is asked about the callback: the same error is emitted when the
  callback has been called before the error event.
\<close>

theorem onError_outcome:
  "(exchanges w node = Some x \<and> \<not> stopped x \<longrightarrow>
      emittedBy node (step (ErrorEvent node e) w) =
        emitted x @ [Error (HttpErrorResponse (EventCause e) 0 ''JSONP Error'' (url x))] \<and>
      isStopped node (step (ErrorEvent node e) w) \<and>
      microtasks (step (ErrorEvent node e) w) = microtasks w \<and>
      callbackMap (step (ErrorEvent node e) w) (callback x) = None \<and>
      node \<notin> set (bodyChildren (step (ErrorEvent node e) w)))
   \<and> (exchanges w node = Some x \<and> \<not> stopped x \<and> callbackMap w (callback x) = Some node \<longrightarrow>
      emittedBy node (run [Call (callback x) [P], ErrorEvent node e] w) =
        emitted x @ [Error (HttpErrorResponse (EventCause e) 0 ''JSONP Error'' (url x))])"
proof (intro conjI impI; elim conjE)
  assume x: "exchanges w node = Some x" and run: "\<not> stopped x"
  have s: "step (ErrorEvent node e) w =
      closing node x [Error (HttpErrorResponse (EventCause e) 0 ''JSONP Error'' (url x))] w"
    by (simp add: onError_closing [OF x run])
  show "emittedBy node (step (ErrorEvent node e) w) =
        emitted x @ [Error (HttpErrorResponse (EventCause e) 0 ''JSONP Error'' (url x))]"
    unfolding s by (rule emittedBy_closing)
  show "isStopped node (step (ErrorEvent node e) w)"
    unfolding s by (simp add: isStopped_def closing_def)
  show "microtasks (step (ErrorEvent node e) w) = microtasks w"
    unfolding s by (simp add: closing_def)
  show "callbackMap (step (ErrorEvent node e) w) (callback x) = None"
    unfolding s by (simp add: closing_def)
  show "node \<notin> set (bodyChildren (step (ErrorEvent node e) w))"
    unfolding s by (simp add: closing_def)
next
  assume x: "exchanges w node = Some x" and run: "\<not> stopped x"
    and reg: "callbackMap w (callback x) = Some node"
  define x1 where "x1 = x\<lparr> body := firstArgument [P], finished := True \<rparr>"
  define w1 where "w1 = step (Call (callback x) [P]) w"
  have w1: "exchanges w1 node = Some x1"
    unfolding w1_def x1_def step_Call_registered [OF x reg] by simp
  have "\<not> stopped x1" using run by (simp add: x1_def)
  from onError_closing [OF w1 this, of e]
  have "emittedBy node (step (ErrorEvent node e) w1) =
      emitted x1 @ [Error (HttpErrorResponse (EventCause e) 0 ''JSONP Error'' (url x1))]"
    by (simp add: emittedBy_closing)
  then show "emittedBy node (run [Call (callback x) [P], ErrorEvent node e] w) =
        emitted x @ [Error (HttpErrorResponse (EventCause e) 0 ''JSONP Error'' (url x))]"
    by (simp add: w1_def x1_def del: step.simps)
qed

theorem onError_outcome_witness:
  "emittedBy 0 (run [Call ''ng_jsonp_callback_0'' [JNum 5], ErrorEvent 0 (JStr ''boom'')]
     (step (Request \<lparr> method = ''JSONP'', responseType = ''json'', headerKeys = [],
        urlWithParams = ''/x?cb=JSONP_CALLBACK&y=1'' \<rparr>) initial))
     = [Next Sent,
        Error (HttpErrorResponse (EventCause (JStr ''boom'')) 0 ''JSONP Error''
          ''/x?cb=ng_jsonp_callback_0&y=1'')]
   \<and> emittedBy 0 (step (ErrorEvent 0 (JStr ''boom''))
     (step (Request \<lparr> method = ''JSONP'', responseType = ''json'', headerKeys = [],
        urlWithParams = ''/x?cb=JSONP_CALLBACK&y=1'' \<rparr>) initial))
     = [Next Sent,
        Error (HttpErrorResponse (EventCause (JStr ''boom'')) 0 ''JSONP Error''
          ''/x?cb=ng_jsonp_callback_0&y=1'')]"
proof -
  let ?w = "step (Request \<lparr> method = ''JSONP'', responseType = ''json'', headerKeys = [],
        urlWithParams = ''/x?cb=JSONP_CALLBACK&y=1'' \<rparr>) initial"
  let ?x = "\<lparr> callback = ''ng_jsonp_callback_0'', url = ''/x?cb=ng_jsonp_callback_0&y=1'',
       body = JNull, finished = False, ownerDocument = None, stopped = False,
       emitted = [Next Sent] \<rparr>"
  have x: "exchanges ?w 0 = Some ?x" by (simp add: eval_defs)
  have c: "callbackMap ?w ''ng_jsonp_callback_0'' = Some 0" by (simp add: eval_defs)
  show ?thesis
    using onError_outcome [of ?w 0 ?x "JStr ''boom''" "JNum 5"] x c
    by (simp del: run.simps step.simps)
qed

subsection \<open>Cleanup\<close>

text \<open>
  C5. \<open>cleanup\<close> frees the subscription's callback name and takes its node off the
  page, touches no other name and no other node, and running it twice is running it
  once. It runs on every path that ends a subscription: after the deferred part of the
  load handler (response or error), after the error handler and after a cancellation the
  callback map has no entry for the name and the node is not on the page.
\<close>

theorem cleanup_on_every_path:
  "exchanges w node = Some x \<longrightarrow>
     callbackMap (cleanup node w) (callback x) = None \<and>
     node \<notin> set (bodyChildren (cleanup node w)) \<and>
     (\<forall>name. name \<noteq> callback x \<longrightarrow> callbackMap (cleanup node w) name = callbackMap w name) \<and>
     set (bodyChildren (cleanup node w)) = set (bodyChildren w) - {node} \<and>
     cleanup node (cleanup node w) = cleanup node w \<and>
     callbackMap (onLoadDeferred node w) (callback x) = None \<and>
     node \<notin> set (bodyChildren (onLoadDeferred node w)) \<and>
     callbackMap (onError node e w) (callback x) = None \<and>
     node \<notin> set (bodyChildren (onError node e w)) \<and>
     (\<not> stopped x \<longrightarrow>
        callbackMap (unsubscribe node w) (callback x) = None \<and>
        node \<notin> set (bodyChildren (unsubscribe node w)))"
proof
  assume x: "exchanges w node = Some x"
  note c = cleanup_effect [OF x]
  have x': "exchanges (cleanup node w) node = Some x" by (simp add: c x)
  have idem: "cleanup node (cleanup node w) = cleanup node w"
    unfolding cleanup_effect [OF x'] unfolding c by simp
  have load: "callbackMap (onLoadDeferred node w) (callback x) = None \<and>
     node \<notin> set (bodyChildren (onLoadDeferred node w))"
  proof (cases "stopped x")
    case True
    with x stopped_paths [of w node x] show ?thesis by (simp add: c)
  next
    case False
    with x show ?thesis by (simp add: onLoadDeferred_closing closing_def)
  qed
  have err: "callbackMap (onError node e w) (callback x) = None \<and>
     node \<notin> set (bodyChildren (onError node e w))"
  proof (cases "stopped x")
    case True
    with x stopped_paths [of w node x] show ?thesis by (simp add: c)
  next
    case False
    with x show ?thesis by (simp add: onError_closing closing_def)
  qed
  have cancel: "\<not> stopped x \<longrightarrow>
        callbackMap (unsubscribe node w) (callback x) = None \<and>
        node \<notin> set (bodyChildren (unsubscribe node w))"
    using x by (simp add: unsubscribe_closing closing_def)
  have others: "set (bodyChildren (cleanup node w)) = set (bodyChildren w) - {node}"
    by (auto simp: c removeChild_def)
  from idem load err cancel others
  show "callbackMap (cleanup node w) (callback x) = None \<and>
     node \<notin> set (bodyChildren (cleanup node w)) \<and>
     (\<forall>name. name \<noteq> callback x \<longrightarrow> callbackMap (cleanup node w) name = callbackMap w name) \<and>
     set (bodyChildren (cleanup node w)) = set (bodyChildren w) - {node} \<and>
     cleanup node (cleanup node w) = cleanup node w \<and>
     callbackMap (onLoadDeferred node w) (callback x) = None \<and>
     node \<notin> set (bodyChildren (onLoadDeferred node w)) \<and>
     callbackMap (onError node e w) (callback x) = None \<and>
     node \<notin> set (bodyChildren (onError node e w)) \<and>
     (\<not> stopped x \<longrightarrow>
        callbackMap (unsubscribe node w) (callback x) = None \<and>
        node \<notin> set (bodyChildren (unsubscribe node w)))"
    by (simp add: c)
qed

theorem cleanup_on_every_path_witness:
  "callbackMap (step (Request \<lparr> method = ''JSONP'', responseType = ''json'', headerKeys = [],
        urlWithParams = ''/x?cb=JSONP_CALLBACK'' \<rparr>) (initial\<lparr> nextRequestId := 5 \<rparr>))
     ''ng_jsonp_callback_5'' = Some 0
   \<and> callbackMap (unsubscribe 0
        (step (Request \<lparr> method = ''JSONP'', responseType = ''json'', headerKeys = [],
           urlWithParams = ''/x?cb=JSONP_CALLBACK'' \<rparr>) (initial\<lparr> nextRequestId := 5 \<rparr>)))
     ''ng_jsonp_callback_5'' = None
   \<and> callbackMap (onError 0 JNull
        (step (Request \<lparr> method = ''JSONP'', responseType = ''json'', headerKeys = [],
           urlWithParams = ''/x?cb=JSONP_CALLBACK'' \<rparr>) (initial\<lparr> nextRequestId := 5 \<rparr>)))
     ''ng_jsonp_callback_5'' = None
   \<and> callbackMap (onLoadDeferred 0
        (step (Request \<lparr> method = ''JSONP'', responseType = ''json'', headerKeys = [],
           urlWithParams = ''/x?cb=JSONP_CALLBACK'' \<rparr>) (initial\<lparr> nextRequestId := 5 \<rparr>)))
     ''ng_jsonp_callback_5'' = None"
proof -
  let ?w = "step (Request \<lparr> method = ''JSONP'', responseType = ''json'', headerKeys = [],
        urlWithParams = ''/x?cb=JSONP_CALLBACK'' \<rparr>) (initial\<lparr> nextRequestId := 5 \<rparr>)"
  let ?x = "\<lparr> callback = ''ng_jsonp_callback_5'', url = ''/x?cb=ng_jsonp_callback_5'',
       body = JNull, finished = False, ownerDocument = None, stopped = False,
       emitted = [Next Sent] \<rparr>"
  have x: "exchanges ?w 0 = Some ?x" by (simp add: eval_defs)
  have c: "callbackMap ?w ''ng_jsonp_callback_5'' = Some 0" by (simp add: eval_defs)
  show ?thesis
    using cleanup_on_every_path [of ?w 0 ?x JNull] x c by (simp del: step.simps)
qed

subsection \<open>The foreign document\<close>

lemma documents_step:
  "documentsCreated w = (if foreignDocument w = None then 0 else 1) \<Longrightarrow>
   documentsCreated (step a w) = (if foreignDocument (step a w) = None then 0 else 1)"
  using step_documents [of a w] by (auto simp del: step.simps split: if_splits)

lemma documents_run:
  "documentsCreated w = (if foreignDocument w = None then 0 else 1) \<Longrightarrow>
   documentsCreated (run as w) = (if foreignDocument (run as w) = None then 0 else 1)"
proof (induction as arbitrary: w)
  case Nil
  then show ?case by simp
next
  case (Cons a as)
  from Cons.IH [OF documents_step [OF Cons.prems, of a]] show ?case by simp
qed

lemma foreignDocument_kept_step:
  "foreignDocument w = Some d \<Longrightarrow>
   foreignDocument (step a w) = Some d \<and> documentsCreated (step a w) = documentsCreated w"
  using step_documents [of a w] by (auto simp del: step.simps)

lemma foreignDocument_kept_run:
  "foreignDocument w = Some d \<Longrightarrow>
   foreignDocument (run as w) = Some d \<and> documentsCreated (run as w) = documentsCreated w"
proof (induction as arbitrary: w)
  case Nil
  then show ?case by simp
next
  case (Cons a as)
  from foreignDocument_kept_step [OF Cons.prems, of a]
  have "foreignDocument (step a w) = Some d" and "documentsCreated (step a w) = documentsCreated w"
    by simp_all
  with Cons.IH [of "step a w"] show ?case by simp
qed

text \<open>
  C9. When a running subscription is cancelled before its callback has run, the script
  node ends up owned by the foreign document: the one the module already holds, or, if
  it holds none, a new one, which the module keeps. When the callback has run, the
  cancellation is the cleanup alone: the node keeps its owner and no document is made or
  looked up. The module starts without a foreign document and makes at most one: in
  every world reached from the initial one the number of documents made is 0 while the
  variable is unset and 1 afterwards, and once set the variable keeps its document.
\<close>

theorem foreign_document_on_cancellation:
  "(exchanges w node = Some x \<and> \<not> stopped x \<and> \<not> finished x \<longrightarrow>
      (\<exists>d x'. foreignDocument (unsubscribe node w) = Some d \<and>
         exchanges (unsubscribe node w) node = Some x' \<and> ownerDocument x' = Some d \<and>
         (foreignDocument w = None \<longrightarrow>
            d = documentsCreated w \<and>
            documentsCreated (unsubscribe node w) = documentsCreated w + 1) \<and>
         (foreignDocument w \<noteq> None \<longrightarrow>
            foreignDocument w = Some d \<and>
            documentsCreated (unsubscribe node w) = documentsCreated w)))
   \<and> (exchanges w node = Some x \<and> \<not> stopped x \<and> finished x \<longrightarrow>
      unsubscribe node w = cleanup node (stop node w) \<and>
      (\<exists>x'. exchanges (unsubscribe node w) node = Some x' \<and>
         ownerDocument x' = ownerDocument x) \<and>
      foreignDocument (unsubscribe node w) = foreignDocument w \<and>
      documentsCreated (unsubscribe node w) = documentsCreated w)
   \<and> foreignDocument initial = None
   \<and> documentsCreated (run as initial) =
        (if foreignDocument (run as initial) = None then 0 else 1)
   \<and> (foreignDocument w = Some d \<longrightarrow>
        foreignDocument (run bs w) = Some d \<and> documentsCreated (run bs w) = documentsCreated w)"
proof (intro conjI impI; (elim conjE)?)
  assume x: "exchanges w node = Some x" and run: "\<not> stopped x" and silent: "\<not> finished x"
  show "\<exists>d x'. foreignDocument (unsubscribe node w) = Some d \<and>
         exchanges (unsubscribe node w) node = Some x' \<and> ownerDocument x' = Some d \<and>
         (foreignDocument w = None \<longrightarrow>
            d = documentsCreated w \<and>
            documentsCreated (unsubscribe node w) = documentsCreated w + 1) \<and>
         (foreignDocument w \<noteq> None \<longrightarrow>
            foreignDocument w = Some d \<and>
            documentsCreated (unsubscribe node w) = documentsCreated w)"
    unfolding unsubscribe_closing [OF x run]
    using silent by (cases "foreignDocument w") (simp_all add: closing_def)
next
  assume x: "exchanges w node = Some x" and run: "\<not> stopped x" and answered: "finished x"
  from x run answered show "unsubscribe node w = cleanup node (stop node w)"
    by (simp add: unsubscribe_def isStopped_def teardown_def stop_def modify_def)
  from answered show "\<exists>x'. exchanges (unsubscribe node w) node = Some x' \<and>
         ownerDocument x' = ownerDocument x"
    unfolding unsubscribe_closing [OF x run] by (simp add: closing_def)
  from answered show "foreignDocument (unsubscribe node w) = foreignDocument w"
    unfolding unsubscribe_closing [OF x run] by (simp add: closing_def)
  from answered show "documentsCreated (unsubscribe node w) = documentsCreated w"
    unfolding unsubscribe_closing [OF x run] by (simp add: closing_def)
next
  show "foreignDocument initial = None" by (simp add: initial_def)
next
  show "documentsCreated (run as initial) =
        (if foreignDocument (run as initial) = None then 0 else 1)"
    by (rule documents_run) (simp add: initial_def)
next
  assume "foreignDocument w = Some d"
  then show "foreignDocument (run bs w) = Some d" and
    "documentsCreated (run bs w) = documentsCreated w"
    using foreignDocument_kept_run [of w d bs] by simp_all
qed

theorem foreign_document_on_cancellation_witness:
  "map_option ownerDocument
     (exchanges (run [Request \<lparr> method = ''JSONP'', responseType = ''json'', headerKeys = [],
         urlWithParams = ''/x?cb=JSONP_CALLBACK'' \<rparr>, Unsubscribe 0] initial) 0) = Some (Some 0)
   \<and> foreignDocument (run [Request \<lparr> method = ''JSONP'', responseType = ''json'',
         headerKeys = [], urlWithParams = ''/x?cb=JSONP_CALLBACK'' \<rparr>, Unsubscribe 0]
         initial) = Some 0
   \<and> documentsCreated (run ([Request \<lparr> method = ''JSONP'', responseType = ''json'',
         headerKeys = [], urlWithParams = ''/x?cb=JSONP_CALLBACK'' \<rparr>, Unsubscribe 0] @
        [Request \<lparr> method = ''JSONP'', responseType = ''json'',
         headerKeys = [], urlWithParams = ''/x?cb=JSONP_CALLBACK'' \<rparr>, Unsubscribe 1])
         initial) = 1
   \<and> map_option ownerDocument
     (exchanges (run [Request \<lparr> method = ''JSONP'', responseType = ''json'', headerKeys = [],
         urlWithParams = ''/x?cb=JSONP_CALLBACK'' \<rparr>, Call ''ng_jsonp_callback_0'' [JNull],
         Unsubscribe 0] initial) 0) = Some None"
proof -
  let ?r = "\<lparr> method = ''JSONP'', responseType = ''json'', headerKeys = [],
         urlWithParams = ''/x?cb=JSONP_CALLBACK'' \<rparr>"
  let ?u = "''/x?cb=ng_jsonp_callback_0''"
  let ?w = "run [Request ?r] initial"
  let ?x = "\<lparr> callback = ''ng_jsonp_callback_0'', url = ?u, body = JNull, finished = False,
       ownerDocument = None, stopped = False, emitted = [Next Sent] \<rparr>"
  let ?v = "run [Request ?r, Call ''ng_jsonp_callback_0'' [JNull]] initial"
  let ?y = "\<lparr> callback = ''ng_jsonp_callback_0'', url = ?u, body = JNull, finished = True,
       ownerDocument = None, stopped = False, emitted = [Next Sent] \<rparr>"
  have x: "exchanges ?w 0 = Some ?x" by (simp add: eval_defs)
  have f: "foreignDocument ?w = None" "documentsCreated ?w = 0" by (simp_all add: eval_defs)
  have y: "exchanges ?v 0 = Some ?y" by (simp add: eval_defs)
  have u: "run [Request ?r, Unsubscribe 0] initial = unsubscribe 0 ?w"
    "run [Request ?r, Call ''ng_jsonp_callback_0'' [JNull], Unsubscribe 0] initial
       = unsubscribe 0 ?v"
    by simp_all
  from foreign_document_on_cancellation [of ?w 0 ?x "[]" 0 "[]"] x f
  have a: "foreignDocument (unsubscribe 0 ?w) = Some 0"
    "map_option ownerDocument (exchanges (unsubscribe 0 ?w) 0) = Some (Some 0)"
    by (auto simp del: run.simps step.simps)
  from foreign_document_on_cancellation
    [of "unsubscribe 0 ?w" 0 ?x "[]" 0 "[Request ?r, Unsubscribe 1]"] a(1) f(2)
    foreign_document_on_cancellation [of ?w 0 ?x "[]" 0 "[]"] x f(1)
  have b: "documentsCreated (run [Request ?r, Unsubscribe 1] (unsubscribe 0 ?w)) = 1"
    by (auto simp del: run.simps step.simps)
  from foreign_document_on_cancellation [of ?v 0 ?y "[]" 0 "[]"] y
  have c: "map_option ownerDocument (exchanges (unsubscribe 0 ?v) 0) = Some None"
    by (auto simp del: run.simps step.simps)
  from a b c show ?thesis unfolding u run_append by simp
qed

subsection \<open>The status text of errors\<close>

lemma jsonpErrors_localStep:
  "jsonpErrors (emitted x) \<Longrightarrow> localStep x x' \<Longrightarrow> jsonpErrors (emitted x')"
  by (auto simp: jsonpErrors_def localStep_def newHttpResponse_def)

lemma errors_ok_step: "errors_ok w \<Longrightarrow> errors_ok (step a w)"
  unfolding errors_ok_def
proof (intro conjI allI impI)
  assume "bounded w \<and> (\<forall>n x. exchanges w n = Some x \<longrightarrow> jsonpErrors (emitted x))"
  then show "bounded (step a w)" by (simp add: bounded_step del: step.simps)
next
  fix n x'
  assume ok: "bounded w \<and> (\<forall>n x. exchanges w n = Some x \<longrightarrow> jsonpErrors (emitted x))"
    and x': "exchanges (step a w) n = Some x'"
  show "jsonpErrors (emitted x')"
  proof (cases "exchanges w n")
    case None
    from step_fresh [OF None x'] show ?thesis by (simp add: jsonpErrors_def)
  next
    case (Some x)
    with ok have "n < nodesCreated w" and e: "jsonpErrors (emitted x)"
      by (auto simp: bounded_def)
    from step_existing [OF Some this(1), of a] x' have "localStep x x'" by auto
    with e show ?thesis by (rule jsonpErrors_localStep)
  qed
qed

lemma errors_ok_run: "errors_ok w \<Longrightarrow> errors_ok (run as w)"
  by (induction as arbitrary: w) (simp_all add: errors_ok_step del: step.simps)

lemma errors_ok_initial: "errors_ok initial"
  by (simp add: errors_ok_def bounded_initial) (simp add: initial_def)

text \<open>
  C10. Both failure paths build the error response with the status text "JSONP Error":
  the deferred part of the load handler when the callback has not run, and the error
  handler. In every world reached from the initial one, each error a subscription has
  emitted has status 0 and that status text.
\<close>

theorem jsonp_error_status_text:
  "(exchanges w node = Some x \<and> \<not> stopped x \<and> \<not> finished x \<longrightarrow>
      (\<exists>c s u. emittedBy node (onLoadDeferred node w) =
         emitted x @ [Error (HttpErrorResponse c s ''JSONP Error'' u)]))
   \<and> (exchanges w node = Some x \<and> \<not> stopped x \<longrightarrow>
      (\<exists>c s u. emittedBy node (onError node e w) =
         emitted x @ [Error (HttpErrorResponse c s ''JSONP Error'' u)]))
   \<and> (exchanges (run as initial) n = Some y \<longrightarrow> jsonpErrors (emitted y))"
proof (intro conjI impI; (elim conjE)?)
  assume "exchanges w node = Some x" and "\<not> stopped x" and "\<not> finished x"
  then show "\<exists>c s u. emittedBy node (onLoadDeferred node w) =
         emitted x @ [Error (HttpErrorResponse c s ''JSONP Error'' u)]"
    by (simp add: onLoadDeferred_closing emittedBy_closing)
next
  assume "exchanges w node = Some x" and "\<not> stopped x"
  then show "\<exists>c s u. emittedBy node (onError node e w) =
         emitted x @ [Error (HttpErrorResponse c s ''JSONP Error'' u)]"
    by (simp add: onError_closing emittedBy_closing)
next
  assume "exchanges (run as initial) n = Some y"
  with errors_ok_run [OF errors_ok_initial, of as] show "jsonpErrors (emitted y)"
    by (simp add: errors_ok_def)
qed

theorem jsonp_error_status_text_witness:
  "jsonpErrors
     [Next Sent, Error (HttpErrorResponse (EventCause (JStr ''boom'')) 0 ''JSONP Error''
        ''/x?cb=ng_jsonp_callback_0'')]
   \<and> (\<exists>c s u. emittedBy 0 (onLoadDeferred 0
        (step (Request \<lparr> method = ''JSONP'', responseType = ''json'', headerKeys = [],
           urlWithParams = ''/x?cb=JSONP_CALLBACK'' \<rparr>) initial))
       = [Next Sent] @ [Error (HttpErrorResponse c s ''JSONP Error'' u)])
   \<and> (\<exists>c s u. emittedBy 0 (onError 0 (JStr ''boom'')
        (step (Request \<lparr> method = ''JSONP'', responseType = ''json'', headerKeys = [],
           urlWithParams = ''/x?cb=JSONP_CALLBACK'' \<rparr>) initial))
       = [Next Sent] @ [Error (HttpErrorResponse c s ''JSONP Error'' u)])"
proof -
  let ?r = "\<lparr> method = ''JSONP'', responseType = ''json'', headerKeys = [],
         urlWithParams = ''/x?cb=JSONP_CALLBACK'' \<rparr>"
  let ?u = "''/x?cb=ng_jsonp_callback_0''"
  let ?w = "step (Request ?r) initial"
  let ?x = "\<lparr> callback = ''ng_jsonp_callback_0'', url = ?u, body = JNull, finished = False,
       ownerDocument = None, stopped = False, emitted = [Next Sent] \<rparr>"
  let ?y = "\<lparr> callback = ''ng_jsonp_callback_0'', url = ?u, body = JNull, finished = False,
       ownerDocument = Some 0, stopped = True,
       emitted = [Next Sent, Error (HttpErrorResponse (EventCause (JStr ''boom'')) 0
         ''JSONP Error'' ?u)] \<rparr>"
  have x: "exchanges ?w 0 = Some ?x" by (simp add: eval_defs)
  have y: "exchanges (run [Request ?r, ErrorEvent 0 (JStr ''boom'')] initial) 0 = Some ?y"
    by (simp add: eval_defs)
  show ?thesis
    using jsonp_error_status_text [of ?w 0 ?x "JStr ''boom''"
        "[Request ?r, ErrorEvent 0 (JStr ''boom'')]" 0 ?y] x y
    by (simp del: run.simps step.simps)
qed

subsection \<open>Callback names\<close>

lemma callbackName_inj: "callbackName k = callbackName l \<Longrightarrow> k = l"
  by (simp add: callbackName_def decimal_inj)

lemma nextCallback_name: "fst (nextCallback w) = callbackName (nextRequestId w)"
  by (simp add: nextCallback_def callbackName_def)

lemma postIncrement_below: "postIncrement n < 2 ^ 53 \<Longrightarrow> postIncrement n = n + 1"
  by (simp add: postIncrement_def split: if_splits)

lemma names_ok_step:
  assumes "names_ok w"
  shows "names_ok (step a w)"
proof -
  from assms have b': "bounded (step a w)"
    by (simp add: names_ok_def bounded_step del: step.simps)
  have main: "(\<forall>n x. exchanges (step a w) n = Some x \<longrightarrow>
        (\<exists>k<nextRequestId (step a w). callback x = callbackName k)) \<and>
      (\<forall>n m x y. n \<noteq> m \<and> exchanges (step a w) n = Some x \<and> exchanges (step a w) m = Some y \<longrightarrow>
         callback x \<noteq> callback y)"
    if below': "nextRequestId (step a w) < 2 ^ 53"
  proof -
    from below' step_nextRequestId [of a w]
    have below: "nextRequestId w < 2 ^ 53"
      and mono: "nextRequestId w \<le> nextRequestId (step a w)"
      by (auto simp: postIncrement_def simp del: step.simps split: if_splits)
    from assms below
    have old: "\<And>n x. exchanges w n = Some x \<Longrightarrow>
          \<exists>k<nextRequestId w. callback x = callbackName k"
      and diff: "\<And>n m x y. n \<noteq> m \<Longrightarrow> exchanges w n = Some x \<Longrightarrow>
          exchanges w m = Some y \<Longrightarrow> callback x \<noteq> callback y"
      and b: "bounded w"
      by (auto simp: names_ok_def)
    have kept: "callback x' = callback x"
      if "exchanges w n = Some x" and "exchanges (step a w) n = Some x'" for n x x'
    proof -
      from b that(1) have "n < nodesCreated w" by (auto simp: bounded_def)
      from step_existing [OF that(1) this, of a] that(2) show ?thesis
        by (auto simp: localStep_def)
    qed
    have fresh: "callback x' = callbackName (nextRequestId w) \<and>
        nextRequestId (step a w) = nextRequestId w + 1 \<and> n = nodesCreated w"
      if "exchanges w n = None" and "exchanges (step a w) n = Some x'" for n x'
      using step_fresh [OF that] below' postIncrement_below [of "nextRequestId w"]
      by (simp add: nextCallback_name del: step.simps)
    have named: "\<exists>k<nextRequestId (step a w). callback x' = callbackName k"
      if x': "exchanges (step a w) n = Some x'" for n x'
    proof (cases "exchanges w n")
      case None
      from fresh [OF None x'] show ?thesis by auto
    next
      case (Some x)
      from old [OF Some] obtain k where "k < nextRequestId w" and "callback x = callbackName k"
        by blast
      with kept [OF Some x'] mono
      have "k < nextRequestId (step a w) \<and> callback x' = callbackName k" by simp
      then show ?thesis by blast
    qed
    have distinct: "callback x' \<noteq> callback y'"
      if nm: "n \<noteq> m" and x': "exchanges (step a w) n = Some x'"
        and y': "exchanges (step a w) m = Some y'" for n m x' y'
    proof (cases "exchanges w n")
      case None
      note n = fresh [OF None x']
      show ?thesis
      proof (cases "exchanges w m")
        case None
        from fresh [OF None y'] n nm show ?thesis by simp
      next
        case (Some y)
        from old [OF Some] kept [OF Some y'] n callbackName_inj show ?thesis by fastforce
      qed
    next
      case (Some x)
      show ?thesis
      proof (cases "exchanges w m")
        case None
        from old [OF Some] kept [OF Some x'] fresh [OF None y'] callbackName_inj
        show ?thesis by fastforce
      next
        case Some2: (Some y)
        from diff [OF nm Some Some2] kept [OF Some x'] kept [OF Some2 y'] show ?thesis by simp
      qed
    qed
    from named distinct show ?thesis by blast
  qed
  from b' main show ?thesis unfolding names_ok_def by blast
qed

lemma names_ok_run: "names_ok w \<Longrightarrow> names_ok (run as w)"
  by (induction as arbitrary: w) (simp_all add: names_ok_step del: step.simps)

lemma names_ok_initial: "names_ok initial"
  by (simp add: names_ok_def bounded_initial) (simp add: initial_def)

lemma nextRequestId_step_le: "nextRequestId (step a w) \<le> nextRequestId w + 1"
  using step_nextRequestId [of a w] by (auto simp: postIncrement_def simp del: step.simps)

lemma nextRequestId_run_le: "nextRequestId (run as w) \<le> nextRequestId w + length as"
proof (induction as arbitrary: w)
  case Nil
  show ?case by simp
next
  case (Cons a as)
  from Cons.IH [of "step a w"] nextRequestId_step_le [of a w] show ?case
    by (simp del: step.simps)
qed

text \<open>
  C8. \<open>nextCallback\<close> returns "ng_jsonp_callback_" followed by the request id in decimal
  and, the id being below \<open>2 ^ 53\<close>, adds one to it, so the next name differs from this
  one; names made from different ids differ. A run of fewer than \<open>2 ^ 53\<close> steps from
  the initial world keeps the id below \<open>2 ^ 53\<close>, and in every world reached with the
  id below \<open>2 ^ 53\<close> two subscriptions have different callback names, whether or not
  the earlier one has ended. (The id is a double: only at \<open>2 ^ 53\<close>, which no page
  reaches, would the increment leave it where it is.)
\<close>

theorem callback_names_unique:
  "fst (nextCallback w) = ''ng_jsonp_callback_'' @ decimal (nextRequestId w)
   \<and> (nextRequestId w < 2 ^ 53 \<longrightarrow>
      nextCallback w =
        (''ng_jsonp_callback_'' @ decimal (nextRequestId w),
         w\<lparr> nextRequestId := nextRequestId w + 1 \<rparr>) \<and>
      fst (nextCallback (snd (nextCallback w))) \<noteq> fst (nextCallback w))
   \<and> (nextRequestId w \<noteq> nextRequestId w' \<longrightarrow> fst (nextCallback w) \<noteq> fst (nextCallback w'))
   \<and> (length as < 2 ^ 53 \<longrightarrow> nextRequestId (run as initial) < 2 ^ 53)
   \<and> (nextRequestId (run as initial) < 2 ^ 53 \<and> n \<noteq> m \<and>
        exchanges (run as initial) n = Some x \<and> exchanges (run as initial) m = Some y \<longrightarrow>
      callback x \<noteq> callback y)
   \<and> (length as < 2 ^ 53 \<and> n \<noteq> m \<and>
        exchanges (run as initial) n = Some x \<and> exchanges (run as initial) m = Some y \<longrightarrow>
      callback x \<noteq> callback y)"
proof -
  have name: "fst (nextCallback w) = ''ng_jsonp_callback_'' @ decimal (nextRequestId w)"
    by (simp add: nextCallback_def)
  have incr: "nextCallback w =
        (''ng_jsonp_callback_'' @ decimal (nextRequestId w),
         w\<lparr> nextRequestId := nextRequestId w + 1 \<rparr>)"
    and next_differs: "fst (nextCallback (snd (nextCallback w))) \<noteq> fst (nextCallback w)"
    if below: "nextRequestId w < 2 ^ 53"
  proof -
    from below show "nextCallback w =
        (''ng_jsonp_callback_'' @ decimal (nextRequestId w),
         w\<lparr> nextRequestId := nextRequestId w + 1 \<rparr>)"
      by (simp add: nextCallback_def postIncrement_def)
    from below have "nextRequestId (snd (nextCallback w)) = nextRequestId w + 1"
      by (simp add: nextCallback_def postIncrement_def)
    then have "nextRequestId (snd (nextCallback w)) \<noteq> nextRequestId w" by simp
    then show "fst (nextCallback (snd (nextCallback w))) \<noteq> fst (nextCallback w)"
      using callbackName_inj unfolding nextCallback_name by blast
  qed
  have differ: "fst (nextCallback w) \<noteq> fst (nextCallback w')"
    if "nextRequestId w \<noteq> nextRequestId w'"
    using that callbackName_inj unfolding nextCallback_name by blast
  have short: "nextRequestId (run as initial) < 2 ^ 53" if "length as < 2 ^ 53"
    using that nextRequestId_run_le [of as initial] by (simp add: initial_def)
  have unique: "callback x \<noteq> callback y"
    if "nextRequestId (run as initial) < 2 ^ 53" and "n \<noteq> m"
      and "exchanges (run as initial) n = Some x" and "exchanges (run as initial) m = Some y"
    using that names_ok_run [OF names_ok_initial, of as] unfolding names_ok_def by blast
  from name incr next_differs differ short unique show ?thesis by blast
qed

theorem callback_names_unique_witness:
  "fst (nextCallback initial) = ''ng_jsonp_callback_0''
   \<and> fst (nextCallback (snd (nextCallback initial))) = ''ng_jsonp_callback_1''
   \<and> map_option callback (exchanges (run
        [Request \<lparr> method = ''JSONP'', responseType = ''json'', headerKeys = [],
           urlWithParams = ''/x?cb=JSONP_CALLBACK'' \<rparr>,
         Request \<lparr> method = ''JSONP'', responseType = ''json'', headerKeys = [],
           urlWithParams = ''/x?cb=JSONP_CALLBACK'' \<rparr>] initial) 0)
      \<noteq> map_option callback (exchanges (run
        [Request \<lparr> method = ''JSONP'', responseType = ''json'', headerKeys = [],
           urlWithParams = ''/x?cb=JSONP_CALLBACK'' \<rparr>,
         Request \<lparr> method = ''JSONP'', responseType = ''json'', headerKeys = [],
           urlWithParams = ''/x?cb=JSONP_CALLBACK'' \<rparr>] initial) 1)"
proof -
  let ?r = "\<lparr> method = ''JSONP'', responseType = ''json'', headerKeys = [],
           urlWithParams = ''/x?cb=JSONP_CALLBACK'' \<rparr>"
  let ?w = "run [Request ?r, Request ?r] initial"
  let ?x = "\<lparr> callback = ''ng_jsonp_callback_0'', url = ''/x?cb=ng_jsonp_callback_0'',
       body = JNull, finished = False, ownerDocument = None, stopped = False,
       emitted = [Next Sent] \<rparr>"
  let ?y = "\<lparr> callback = ''ng_jsonp_callback_1'', url = ''/x?cb=ng_jsonp_callback_1'',
       body = JNull, finished = False, ownerDocument = None, stopped = False,
       emitted = [Next Sent] \<rparr>"
  have c: "nextRequestId initial = 0" "nextRequestId ?w < 2 ^ 53" by (simp_all add: eval_defs)
  have l: "length [Request ?r, Request ?r] < 2 ^ 53" by simp
  have x: "exchanges ?w 0 = Some ?x" by (simp add: eval_defs)
  have y: "exchanges ?w 1 = Some ?y" by (simp add: eval_defs)
  have d: "decimal 0 = ''0''" "decimal 1 = ''1''" by (simp_all add: decimal.simps digit_def)
  from callback_names_unique [of initial initial "[Request ?r, Request ?r]" 0 1 ?x ?y]
    c l x y d
  show ?thesis by (simp add: nextCallback_def postIncrement_def del: run.simps step.simps)
qed

end
